theory Spec2Isabelle
  imports Main
begin

section \<open>The test utilities \<open>waitFor\<close> and \<open>reliableAction\<close> of tests/playwright-utils.ts\<close>

text \<open>
  The two functions are asynchronous TypeScript: every step is an \<open>await\<close>, so the
  body of each runs as one sequence of effects on a single thread. The embedding runs that
  sequence over a virtual clock in milliseconds:
  \<^item> a callback (\<open>cb\<close>, \<open>action\<close>, \<open>verify\<close>) is an opaque closure over the browser; it
    is a function of the time of the call and of the state of the outside world, and
    gives the time the call takes, what it returns or throws, and the new state of the
    world. A callback whose promise never settles is outside the model;
  \<^item> \<open>setTimeout(f, ms)\<close> runs \<open>f\<close> once the clock has advanced by the delay that the
    Node.js runtime gives \<open>ms\<close>; timers due at the same instant run in the order in
    which they were scheduled;
  \<^item> a \<open>throw\<close> is a value of the outcome type, and a promise that is never settled is
    the outcome \<open>NeverSettles\<close>;
  \<^item> every effect is logged, with the clock at its start and the loop index \<open>i\<close> of the
    attempt it belongs to, so that the number and the order of the calls can be stated.
\<close>

subsection \<open>Values, errors and outcomes\<close>

datatype js_value = JUndefined | JNull | JBool bool | JNum int | JStr string | JObj nat

text \<open>The test of \<open>if (response)\<close>.\<close>

fun truthy :: "js_value \<Rightarrow> bool" where
  "truthy JUndefined = False"
| "truthy JNull = False"
| "truthy (JBool b) = b"
| "truthy (JNum n) = (n \<noteq> 0)"
| "truthy (JStr s) = (s \<noteq> [])"
| "truthy (JObj a) = True"

text \<open>
  The pieces of a template literal: its text, with each interpolated string, and each
  interpolated number, kept as the number it is.
\<close>

datatype part = Text string | Number int

text \<open>
  What a \<open>throw\<close> statement of the two functions throws: a value \<open>e\<close> caught from a
  callback, thrown again as it is, the object made by \<open>new Error(message)\<close> from a
  string, or the object made by \<open>new Error\<close> from a template literal.
\<close>

datatype 'e thrown = Thrown 'e | NewError string | NewErrorTemplate "part list"

datatype 'e outcome = Returned js_value | Threw "'e thrown" | NeverSettles

record 'w env =
  clock :: nat
  world :: 'w

type_synonym ('w, 'r) callback = "nat \<Rightarrow> 'w \<Rightarrow> nat \<times> 'r \<times> 'w"

text \<open>
  The delay of a Node.js timer: a delay below 1 or above 2147483647 is set to 1.
\<close>

definition timer_delay :: "int \<Rightarrow> nat" where
  "timer_delay ms = (if ms < 1 \<or> 2147483647 < ms then 1 else nat ms)"

text \<open>\<open>await new Promise((r) => setTimeout(r, ms))\<close>\<close>

definition setTimeout_await :: "int \<Rightarrow> 'w env \<Rightarrow> 'w env" where
  "setTimeout_await ms s = s\<lparr>clock := clock s + timer_delay ms\<rparr>"

text \<open>
  Modelled from the spec: \<open>sleep\<close> is imported from app/utils/misc.tsx, which is not
  among the sources. The spec calls it a wait of the given number of time units on the
  timer primitive, that is the promise of a \<open>setTimeout\<close>.
\<close>

definition sleep :: "int \<Rightarrow> 'w env \<Rightarrow> 'w env" where
  "sleep ms s = setTimeout_await ms s"

text \<open>The decimal digits of an integer.\<close>

fun decimal_of_nat :: "nat \<Rightarrow> string" where
  "decimal_of_nat n =
     (if n < 10 then [''0123456789'' ! n]
      else decimal_of_nat (n div 10) @ [''0123456789'' ! (n mod 10)])"

definition decimal_of_int :: "int \<Rightarrow> string" where
  "decimal_of_int n =
     (if n < 0 then ''-'' @ decimal_of_nat (nat (- n)) else decimal_of_nat (nat n))"

text \<open>
  The text that JavaScript gives a number interpolated in a template literal, for an
  integer. It is the decimal digits for a safe integer (\<open>Number.isSafeInteger\<close>: at most
  \<open>2 ^ 53 - 1\<close> in absolute value). Beyond that range it is not rendered here
  (\<open>None\<close>): a number is a double, its text has the shortest digits that read back as
  the same double, and from \<open>10 ^ 21\<close> on it is in exponent notation.
\<close>

definition safe_integer :: "int \<Rightarrow> bool" where
  "safe_integer n = (\<bar>n\<bar> \<le> 9007199254740991)"

definition number_text :: "int \<Rightarrow> string option" where
  "number_text n = (if safe_integer n then Some (decimal_of_int n) else None)"

text \<open>The string a template literal evaluates to, where every number in it is rendered.\<close>

fun template_text :: "part list \<Rightarrow> string option" where
  "template_text [] = Some []"
| "template_text (Text s # ps) =
     (case template_text ps of None \<Rightarrow> None | Some rest \<Rightarrow> Some (s @ rest))"
| "template_text (Number n # ps) =
     (case number_text n of
        None \<Rightarrow> None
      | Some digits \<Rightarrow>
          (case template_text ps of None \<Rightarrow> None | Some rest \<Rightarrow> Some (digits @ rest)))"

subsection \<open>\<open>waitFor\<close>\<close>

text \<open>
  The loop \<open>while (Date.now() < endTime)\<close> with the variable \<open>lastError\<close>. The second
  component of the result lists what each call of \<open>cb\<close> returned or threw, in order.
\<close>

function waitFor_loop ::
  "('w, 'e + js_value) callback \<Rightarrow> int \<Rightarrow> 'e thrown \<Rightarrow> 'w env \<Rightarrow>
     'e outcome \<times> ('e + js_value) list \<times> 'w env" where
  "waitFor_loop cb endTime lastError s =
     (if int (clock s) < endTime then
        (case cb (clock s) (world s) of (d, r, w) \<Rightarrow>
           let s1 = \<lparr>clock = clock s + d, world = w\<rparr> in
           (case r of
              Inr response \<Rightarrow>
                if truthy response then (Returned response, [r], s1)
                else (case waitFor_loop cb endTime lastError (setTimeout_await 100 s1) of
                        (out, rs, s') \<Rightarrow> (out, r # rs, s'))
            | Inl e \<Rightarrow>
                (case waitFor_loop cb endTime (Thrown e) (setTimeout_await 100 s1) of
                   (out, rs, s') \<Rightarrow> (out, r # rs, s'))))
      else (Threw lastError, [], s))"
  by pat_completeness auto
termination
  by (relation "measure (\<lambda>(cb, endTime, lastError, s). nat (endTime - int (clock s)))")
     (auto simp: setTimeout_await_def timer_delay_def)

declare waitFor_loop.simps [simp del]

definition waitFor ::
  "('w, 'e + js_value) callback \<Rightarrow> string option \<Rightarrow> int option \<Rightarrow> 'w env \<Rightarrow>
     'e outcome \<times> ('e + js_value) list \<times> 'w env" where
  "waitFor cb errorMessage timeout s =
     (let timeout = (case timeout of None \<Rightarrow> 5000 | Some t \<Rightarrow> t);
          endTime = int (clock s) + timeout;
          lastError = NewError (case errorMessage of None \<Rightarrow> [] | Some m \<Rightarrow> m)
      in waitFor_loop cb endTime lastError s)"

subsection \<open>\<open>reliableAction\<close>\<close>

datatype ('a, 'e) event =
    Debug int
  | Action "'e + 'a"
  | Settle
  | SetTimer nat
  | Verify "'e + bool"
  | Resolve bool
  | SleepVerify int
  | SleepAction int

type_synonym ('a, 'e) entry = "nat \<times> int \<times> ('a, 'e) event"

text \<open>The promise \<open>verifyPromise\<close>: resolved with a boolean, or never settled.\<close>

datatype resolution = Resolved bool | Pending

text \<open>
  The executor of \<open>verifyPromise\<close>, from its \<open>while (!timedout)\<close> on. The timer that
  sets \<open>timedout\<close> was scheduled before every \<open>sleep\<close> of the loop, so at the head of
  the loop the flag is set exactly when the clock has reached the timer's deadline; at
  the first test, made in the tick of the scheduling, it is unset, the delay of a timer
  being at least 1.
  A \<open>verify\<close> that throws ends the executor, an \<open>async\<close> function whose own promise
  nobody reads, before any call of \<open>resolve\<close>. The calls of \<open>resolve\<close> are
  logged as \<open>Resolve\<close>.
\<close>

function verify_loop ::
  "('w, 'e + bool) callback \<Rightarrow> int \<Rightarrow> nat \<Rightarrow> int \<Rightarrow> 'w env \<Rightarrow>
     resolution \<times> ('a, 'e) entry list \<times> 'w env" where
  "verify_loop verify verifyInterval deadline i s =
     (if clock s < deadline then
        (case verify (clock s) (world s) of (d, r, w) \<Rightarrow>
           let s1 = \<lparr>clock = clock s + d, world = w\<rparr> in
           (case r of
              Inl e \<Rightarrow> (Pending, [(clock s, i, Verify r)], s1)
            | Inr b \<Rightarrow>
                if b then (Resolved True, [(clock s, i, Verify r), (clock s1, i, Resolve True)], s1)
                else (case verify_loop verify verifyInterval deadline i (sleep verifyInterval s1) of
                        (res, evs, s') \<Rightarrow>
                          (res, (clock s, i, Verify r) # (clock s1, i, SleepVerify verifyInterval) # evs, s'))))
      else (Resolved False, [(clock s, i, Resolve False)], s))"
  by pat_completeness auto
termination
  by (relation "measure (\<lambda>(verify, verifyInterval, deadline, i, s). deadline - clock s)")
     (auto simp: sleep_def setTimeout_await_def timer_delay_def)

declare verify_loop.simps [simp del]

text \<open>The template literal of the error thrown after the loop.\<close>

definition failed_message :: "string \<Rightarrow> int \<Rightarrow> part list" where
  "failed_message actionName maxAttempts =
     [Text ''Failed to perform '', Text actionName, Text '' after '', Number maxAttempts,
      Text '' attempts'']"

text \<open>The \<open>for\<close> loop of \<open>reliableAction\<close>, from its test \<open>i < maxAttempts\<close> on.\<close>

function attempts ::
  "('w, 'e + 'a) callback \<Rightarrow> ('w, 'e + bool) callback \<Rightarrow>
     int \<Rightarrow> int \<Rightarrow> int \<Rightarrow> int \<Rightarrow> string \<Rightarrow> int \<Rightarrow> 'w env \<Rightarrow>
     'e outcome \<times> ('a, 'e) entry list \<times> 'w env" where
  "attempts action verify maxAttempts actionInterval verifyInterval timeout actionName i s =
     (if i < maxAttempts then
        (let isLastAttempt = (i = maxAttempts - 1) in
         case action (clock s) (world s) of (d, r, w) \<Rightarrow>
           let s1 = \<lparr>clock = clock s + d, world = w\<rparr>;
               called = [(clock s, i, Debug (i + 1)), (clock s, i, Action r)]
           in
           (case r of
              Inl e \<Rightarrow>
                if isLastAttempt then (Threw (Thrown e), called, s1)
                else (case attempts action verify maxAttempts actionInterval verifyInterval
                             timeout actionName (i + 1) (sleep actionInterval s1) of
                        (out, evs, s') \<Rightarrow>
                          (out, called @ (clock s1, i, SleepAction actionInterval) # evs, s'))
            | Inr v \<Rightarrow>
                let s2 = setTimeout_await 50 s1;
                    deadline = clock s2 + timer_delay timeout;
                    started = called @ [(clock s1, i, Settle), (clock s2, i, SetTimer deadline)]
                in
                (case verify_loop verify verifyInterval deadline i s2 of
                   (Pending, vs, s3) \<Rightarrow> (NeverSettles, started @ vs, s3)
                 | (Resolved True, vs, s3) \<Rightarrow> (Returned JUndefined, started @ vs, s3)
                 | (Resolved False, vs, s3) \<Rightarrow>
                     if isLastAttempt then
                       (case attempts action verify maxAttempts actionInterval verifyInterval
                               timeout actionName (i + 1) s3 of
                          (out, evs, s') \<Rightarrow> (out, started @ vs @ evs, s'))
                     else
                       (case attempts action verify maxAttempts actionInterval verifyInterval
                               timeout actionName (i + 1) (sleep actionInterval s3) of
                          (out, evs, s') \<Rightarrow>
                            (out, started @ vs @ (clock s3, i, SleepAction actionInterval) # evs, s')))))
      else
        (Threw (NewErrorTemplate (failed_message actionName maxAttempts)), [], s))"
  by pat_completeness auto
termination
  by (relation "measure (\<lambda>(action, verify, maxAttempts, actionInterval, verifyInterval,
                           timeout, actionName, i, s). nat (maxAttempts - i))")
     auto

declare attempts.simps [simp del]

text \<open>
  The options object; a field left out is \<open>None\<close> and takes its default in
  \<open>reliableAction\<close>.
\<close>

record RetryOptions =
  maxAttempts :: "int option"
  actionInterval :: "int option"
  verifyInterval :: "int option"
  timeout :: "int option"
  actionName :: "string option"

text \<open>The default of a field in the destructuring \<open>const { f = d } = options\<close>.\<close>

definition option_or :: "'a option \<Rightarrow> 'a \<Rightarrow> 'a" where
  "option_or field d = (case field of None \<Rightarrow> d | Some v \<Rightarrow> v)"

definition reliableAction ::
  "('w, 'e + 'a) callback \<Rightarrow> ('w, 'e + bool) callback \<Rightarrow> RetryOptions \<Rightarrow> 'w env \<Rightarrow>
     'e outcome \<times> ('a, 'e) entry list \<times> 'w env" where
  "reliableAction action verify options s =
     attempts action verify
       (option_or (maxAttempts options) 3)
       (option_or (actionInterval options) 100)
       (option_or (verifyInterval options) 50)
       (option_or (timeout options) 1000)
       (option_or (actionName options) ''action'')
       0 s"

subsection \<open>Reading the log\<close>

definition attempt_of :: "('a, 'e) entry \<Rightarrow> int" where
  "attempt_of x = fst (snd x)"

definition time_of :: "('a, 'e) entry \<Rightarrow> nat" where
  "time_of x = fst x"

fun is_action :: "('a, 'e) entry \<Rightarrow> bool" where
  "is_action (t, j, Action r) = True"
| "is_action x = False"

fun is_verify :: "('a, 'e) entry \<Rightarrow> bool" where
  "is_verify (t, j, Verify r) = True"
| "is_verify x = False"

text \<open>
  The calls of \<open>action\<close>, the calls of \<open>verify\<close> and all the effects of the iteration
  \<open>j\<close> of the loop.
\<close>

definition actions_in :: "int \<Rightarrow> ('a, 'e) entry list \<Rightarrow> ('a, 'e) entry list" where
  "actions_in j evs = filter (\<lambda>x. attempt_of x = j \<and> is_action x) evs"

definition verifies_in :: "int \<Rightarrow> ('a, 'e) entry list \<Rightarrow> ('a, 'e) entry list" where
  "verifies_in j evs = filter (\<lambda>x. attempt_of x = j \<and> is_verify x) evs"

definition events_in :: "int \<Rightarrow> ('a, 'e) entry list \<Rightarrow> ('a, 'e) entry list" where
  "events_in j evs = filter (\<lambda>x. attempt_of x = j) evs"

text \<open>The error most recently thrown among the results of the calls of \<open>cb\<close>.\<close>

fun last_thrown :: "('e + 'v) list \<Rightarrow> 'e option" where
  "last_thrown [] = None"
| "last_thrown (r # rs) =
     (case last_thrown rs of
        Some e \<Rightarrow> Some e
      | None \<Rightarrow> (case r of Inl e \<Rightarrow> Some e | Inr v \<Rightarrow> None))"

subsection \<open>One iteration of the loop of \<open>reliableAction\<close>\<close>

text \<open>
  The body of the \<open>for\<close> loop on its own, for the proofs: \<open>Some out\<close> when the
  iteration ends the function with \<open>out\<close>, \<open>None\<close> when the loop goes on to
  \<open>i + 1\<close>. The lemma \<open>attempts_unfold\<close> relates it to \<open>attempts\<close>.
\<close>

definition attempt_once ::
  "('w, 'e + 'a) callback \<Rightarrow> ('w, 'e + bool) callback \<Rightarrow>
     int \<Rightarrow> int \<Rightarrow> int \<Rightarrow> int \<Rightarrow> int \<Rightarrow> 'w env \<Rightarrow>
     'e outcome option \<times> ('a, 'e) entry list \<times> 'w env" where
  "attempt_once action verify m ai vi tmo i s =
     (case action (clock s) (world s) of (d, r, w) \<Rightarrow>
        let s1 = \<lparr>clock = clock s + d, world = w\<rparr>;
            called = [(clock s, i, Debug (i + 1)), (clock s, i, Action r)]
        in
        (case r of
           Inl e \<Rightarrow>
             if i = m - 1 then (Some (Threw (Thrown e)), called, s1)
             else (None, called @ [(clock s1, i, SleepAction ai)], sleep ai s1)
         | Inr v \<Rightarrow>
             let s2 = setTimeout_await 50 s1;
                 deadline = clock s2 + timer_delay tmo;
                 started = called @ [(clock s1, i, Settle), (clock s2, i, SetTimer deadline)]
             in
             (case verify_loop verify vi deadline i s2 of
                (Pending, vs, s3) \<Rightarrow> (Some NeverSettles, started @ vs, s3)
              | (Resolved True, vs, s3) \<Rightarrow> (Some (Returned JUndefined), started @ vs, s3)
              | (Resolved False, vs, s3) \<Rightarrow>
                  if i = m - 1 then (None, started @ vs, s3)
                  else (None, started @ vs @ [(clock s3, i, SleepAction ai)], sleep ai s3))))"

subsection \<open>Callbacks of the examples\<close>

text \<open>
  Four concrete callbacks over a world that counts the calls: an action that returns at
  once, a verifier that returns true from the tick \<open>t0\<close> on, a verifier that throws the
  value 7 whenever it is called, and a probe for \<open>waitFor\<close> that returns \<open>undefined\<close> on
  its first two calls and \<open>v\<close> from the third call on.
\<close>

definition action_returns :: "(nat, nat + unit) callback" where
  "action_returns t w = (0, Inr (), w)"

definition verify_true_from :: "nat \<Rightarrow> (nat, nat + bool) callback" where
  "verify_true_from t0 t w = (0, Inr (t0 \<le> t), w)"

definition verify_throws :: "(nat, nat + bool) callback" where
  "verify_throws t w = (0, Inl 7, w)"

definition probe_from_third_call :: "js_value \<Rightarrow> (nat, nat + js_value) callback" where
  "probe_from_third_call v t w = (0, Inr (if w < 2 then JUndefined else v), Suc w)"

section \<open>The loops, step by step\<close>

subsection \<open>Unfolding \<open>attempts\<close> and \<open>verify_loop\<close>\<close>

lemma attempts_unfold:
  "attempts action verify m ai vi tmo name i s =
     (if i < m then
        (case attempt_once action verify m ai vi tmo i s of
           (Some out, evs, s') \<Rightarrow> (out, evs, s')
         | (None, evs, s') \<Rightarrow>
             (case attempts action verify m ai vi tmo name (i + 1) s' of
                (out, evs', s'') \<Rightarrow> (out, evs @ evs', s'')))
      else (Threw (NewErrorTemplate (failed_message name m)), [], s))"
  by (subst attempts.simps)
     (auto simp add: attempt_once_def failed_message_def Let_def
           split: prod.splits sum.splits resolution.splits bool.splits)

lemma timer_delay_pos: "0 < timer_delay ms"
  by (simp add: timer_delay_def)

lemma verify_loop_timeout:
  "\<not> clock s < dl \<Longrightarrow>
     verify_loop verify vi dl i s = (Resolved False, [(clock s, i, Resolve False)], s)"
  by (subst verify_loop.simps) simp

lemma verify_loop_throws:
  "clock s < dl \<Longrightarrow> verify (clock s) (world s) = (d, Inl e, w) \<Longrightarrow>
     verify_loop verify vi dl i s =
       (Pending, [(clock s, i, Verify (Inl e))], \<lparr>clock = clock s + d, world = w\<rparr>)"
  by (subst verify_loop.simps) simp

lemma verify_loop_confirms:
  "clock s < dl \<Longrightarrow> verify (clock s) (world s) = (d, Inr True, w) \<Longrightarrow>
     verify_loop verify vi dl i s =
       (Resolved True, [(clock s, i, Verify (Inr True)), (clock s + d, i, Resolve True)],
        \<lparr>clock = clock s + d, world = w\<rparr>)"
  by (subst verify_loop.simps) simp

lemma verify_loop_again:
  "clock s < dl \<Longrightarrow> verify (clock s) (world s) = (d, Inr False, w) \<Longrightarrow>
     verify_loop verify vi dl i (sleep vi \<lparr>clock = clock s + d, world = w\<rparr>) = (res, evs, s') \<Longrightarrow>
     verify_loop verify vi dl i s =
       (res, (clock s, i, Verify (Inr False)) # (clock s + d, i, SleepVerify vi) # evs, s')"
  by (subst verify_loop.simps) simp

lemma verify_loop_induct [consumes 1, case_names timeout throws confirms again]:
  fixes evs :: "('a, 'e) entry list"
  assumes run: "verify_loop verify vi dl i s = (res, evs, s')"
    and timeout: "\<And>s. \<not> clock s < dl \<Longrightarrow> P s (Resolved False) [(clock s, i, Resolve False)] s"
    and throws: "\<And>s d e w. clock s < dl \<Longrightarrow> verify (clock s) (world s) = (d, Inl e, w) \<Longrightarrow>
       P s Pending [(clock s, i, Verify (Inl e))] \<lparr>clock = clock s + d, world = w\<rparr>"
    and confirms: "\<And>s d w. clock s < dl \<Longrightarrow> verify (clock s) (world s) = (d, Inr True, w) \<Longrightarrow>
       P s (Resolved True) [(clock s, i, Verify (Inr True)), (clock s + d, i, Resolve True)]
         \<lparr>clock = clock s + d, world = w\<rparr>"
    and again: "\<And>s d w res evs s'. clock s < dl \<Longrightarrow>
       verify (clock s) (world s) = (d, Inr False, w) \<Longrightarrow>
       verify_loop verify vi dl i (sleep vi \<lparr>clock = clock s + d, world = w\<rparr>) = (res, evs, s') \<Longrightarrow>
       P (sleep vi \<lparr>clock = clock s + d, world = w\<rparr>) res evs s' \<Longrightarrow>
       P s res ((clock s, i, Verify (Inr False)) # (clock s + d, i, SleepVerify vi) # evs) s'"
  shows "P s res evs s'"
  using run
proof (induction "dl - clock s" arbitrary: s res evs s' rule: less_induct)
  case less
  show ?case
  proof (cases "clock s < dl")
    case False
    with less.prems timeout show ?thesis by (auto simp: verify_loop_timeout)
  next
    case True
    obtain d r w where v: "verify (clock s) (world s) = (d, r, w)"
      by (cases "verify (clock s) (world s)")
    show ?thesis
    proof (cases r)
      case (Inl e)
      with True v less.prems throws show ?thesis by (auto simp: verify_loop_throws)
    next
      case (Inr b)
      show ?thesis
      proof (cases b)
        case True
        with \<open>clock s < dl\<close> v Inr less.prems confirms show ?thesis
          by (auto simp: verify_loop_confirms)
      next
        case False
        let ?s2 = "sleep vi \<lparr>clock = clock s + d, world = w\<rparr>"
        obtain res2 and evs2 :: "('a, 'e) entry list" and s2' where rec: "verify_loop verify vi dl i ?s2 = (res2, evs2, s2')"
          using prod_cases3 by blast
        have smaller: "dl - clock ?s2 < dl - clock s"
          using \<open>clock s < dl\<close> timer_delay_pos [of vi]
          by (simp add: sleep_def setTimeout_await_def)
        have "P ?s2 res2 evs2 s2'" using less.hyps [OF smaller rec] .
        with again [OF \<open>clock s < dl\<close> _ rec] v Inr False
        have "P s res2 ((clock s, i, Verify (Inr False)) # (clock s + d, i, SleepVerify vi) # evs2) s2'"
          by simp
        moreover have "verify_loop verify vi dl i s =
            (res2, (clock s, i, Verify (Inr False)) # (clock s + d, i, SleepVerify vi) # evs2, s2')"
          using verify_loop_again [OF \<open>clock s < dl\<close> _ rec] v Inr False by simp
        ultimately show ?thesis using less.prems by auto
      qed
    qed
  qed
qed

lemma verify_loop_attempt:
  "verify_loop verify vi dl i s = (res, evs, s') \<Longrightarrow> x \<in> set evs \<Longrightarrow> attempt_of x = i"
  by (induction rule: verify_loop_induct) (auto simp: attempt_of_def)

lemma verify_loop_no_action:
  "verify_loop verify vi dl i s = (res, evs, s') \<Longrightarrow> x \<in> set evs \<Longrightarrow> \<not> is_action x"
  by (induction rule: verify_loop_induct) auto

lemma verify_loop_time:
  "verify_loop verify vi dl i s = (res, evs, s') \<Longrightarrow> (t, j, Verify r) \<in> set evs \<Longrightarrow>
     clock s \<le> t \<and> t < dl"
  by (induction rule: verify_loop_induct) (auto simp: sleep_def setTimeout_await_def)

lemma verify_loop_results:
  "verify_loop verify vi dl i s = (res, evs, s') \<Longrightarrow> (t, j, Verify r) \<in> set evs \<Longrightarrow>
     \<exists>t' w d w'. verify t' w = (d, r, w')"
  by (induction rule: verify_loop_induct) auto

lemma verify_loop_true:
  "verify_loop verify vi dl i s = (res, evs, s') \<Longrightarrow> (t, j, Verify (Inr True)) \<in> set evs \<Longrightarrow>
     res = Resolved True \<and>
     (\<exists>pre t'. evs = pre @ [(t, j, Verify (Inr True)), (t', j, Resolve True)]) \<and>
     (\<forall>t'. (t', j, Resolve False) \<notin> set evs)"
proof (induction rule: verify_loop_induct)
  case (again s d w res evs s')
  from again.prems have mem: "(t, j, Verify (Inr True)) \<in> set evs" by simp
  from again.IH [OF mem] obtain pre t' where
    evs: "evs = pre @ [(t, j, Verify (Inr True)), (t', j, Resolve True)]"
    and res: "res = Resolved True" and nf: "\<forall>t'. (t', j, Resolve False) \<notin> set evs"
    by blast
  let ?h = "[(clock s, i, Verify (Inr False)), (clock s + d, i, SleepVerify vi)]"
  have "(clock s, i, Verify (Inr False)) # (clock s + d, i, SleepVerify vi) # evs =
      (?h @ pre) @ [(t, j, Verify (Inr True)), (t', j, Resolve True)]"
    using evs by simp
  then have "\<exists>pre t'. (clock s, i, Verify (Inr False)) # (clock s + d, i, SleepVerify vi) # evs =
      pre @ [(t, j, Verify (Inr True)), (t', j, Resolve True)]"
    by blast
  moreover have "\<forall>t'. (t', j, Resolve False) \<notin>
      set ((clock s, i, Verify (Inr False)) # (clock s + d, i, SleepVerify vi) # evs)"
    using nf by simp
  ultimately show ?case using res by blast
next
  case (confirms s d w)
  then have "t = clock s" and "j = i" by auto
  then have "[(clock s, i, Verify (Inr True)), (clock s + d, i, Resolve True)] =
      [] @ [(t, j, Verify (Inr True)), (clock s + d, j, Resolve True)]"
    by simp
  then show ?case by auto
qed auto

lemma verify_loop_throw:
  "verify_loop verify vi dl i s = (res, evs, s') \<Longrightarrow> (t, j, Verify (Inl e)) \<in> set evs \<Longrightarrow>
     res = Pending \<and> last evs = (t, j, Verify (Inl e)) \<and> (\<forall>t' b. (t', j, Resolve b) \<notin> set evs)"
  by (induction rule: verify_loop_induct) auto

lemma verify_loop_Pending:
  "verify_loop verify vi dl i s = (res, evs, s') \<Longrightarrow> res = Pending \<Longrightarrow>
     \<exists>t e. (t, i, Verify (Inl e)) \<in> set evs"
  by (induction rule: verify_loop_induct) auto

lemma verify_loop_Resolved_True:
  "verify_loop verify vi dl i s = (res, evs, s') \<Longrightarrow> res = Resolved True \<Longrightarrow>
     \<exists>t. (t, i, Verify (Inr True)) \<in> set evs"
  by (induction rule: verify_loop_induct) auto

lemma verify_loop_Resolved_False:
  "verify_loop verify vi dl i s = (res, evs, s') \<Longrightarrow> res = Resolved False \<Longrightarrow> dl \<le> clock s'"
  by (induction rule: verify_loop_induct) auto

lemma verify_loop_first:
  "verify_loop verify vi dl i s = (res, evs, s') \<Longrightarrow> clock s < dl \<Longrightarrow>
     \<exists>r. (clock s, i, Verify r) \<in> set evs"
  by (induction rule: verify_loop_induct) auto

lemma verify_loop_clock:
  "verify_loop verify vi dl i s = (res, evs, s') \<Longrightarrow>
     clock s \<le> clock s' \<and> (\<forall>x \<in> set evs. clock s \<le> time_of x \<and> time_of x \<le> clock s') \<and>
     sorted (map time_of evs)"
  by (induction rule: verify_loop_induct)
     (auto simp: time_of_def sleep_def setTimeout_await_def)

subsection \<open>Induction over the iterations\<close>

lemma attempts_induct [consumes 1, case_names exhausted stop continue]:
  fixes evs :: "('a, 'e) entry list"
  assumes run: "attempts action verify m ai vi tmo name i s = (out, evs, s')"
    and exhausted: "\<And>i s. \<not> i < m \<Longrightarrow> P i s (Threw (NewErrorTemplate (failed_message name m))) [] s"
    and stop: "\<And>i s out evs s'. i < m \<Longrightarrow>
       attempt_once action verify m ai vi tmo i s = (Some out, evs, s') \<Longrightarrow> P i s out evs s'"
    and continue: "\<And>i s evs1 s1 out evs2 s'. i < m \<Longrightarrow>
       attempt_once action verify m ai vi tmo i s = (None, evs1, s1) \<Longrightarrow>
       attempts action verify m ai vi tmo name (i + 1) s1 = (out, evs2, s') \<Longrightarrow>
       P (i + 1) s1 out evs2 s' \<Longrightarrow> P i s out (evs1 @ evs2) s'"
  shows "P i s out evs s'"
  using run
proof (induction "nat (m - i)" arbitrary: i s out evs s' rule: less_induct)
  case less
  show ?case
  proof (cases "i < m")
    case False
    with less.prems exhausted show ?thesis by (auto simp: attempts_unfold)
  next
    case True
    obtain st and evs1 :: "('a, 'e) entry list" and s1
      where once: "attempt_once action verify m ai vi tmo i s = (st, evs1, s1)"
      using prod_cases3 by blast
    show ?thesis
    proof (cases st)
      case (Some out1)
      with True once less.prems stop show ?thesis by (auto simp: attempts_unfold)
    next
      case None
      obtain out2 and evs2 :: "('a, 'e) entry list" and s2
        where rec: "attempts action verify m ai vi tmo name (i + 1) s1 = (out2, evs2, s2)"
        using prod_cases3 by blast
      have "nat (m - (i + 1)) < nat (m - i)" using True by simp
      from less.hyps [OF this rec] have "P (i + 1) s1 out2 evs2 s2" .
      with continue [OF True _ rec] once None have "P i s out2 (evs1 @ evs2) s2" by simp
      moreover have "attempts action verify m ai vi tmo name i s = (out2, evs1 @ evs2, s2)"
        using True once None rec by (simp add: attempts_unfold)
      ultimately show ?thesis using less.prems by auto
    qed
  qed
qed

subsection \<open>The cases of one iteration\<close>

lemma attempt_once_cases [consumes 1, case_names throws_last throws_retry pending confirmed timeout_last timeout_retry]:
  fixes evs :: "('a, 'e) entry list"
  assumes once: "attempt_once action verify m ai vi tmo i s = (st, evs, s')"
    and throws_last: "\<And>d e w. action (clock s) (world s) = (d, Inl e, w) \<Longrightarrow> i = m - 1 \<Longrightarrow>
       st = Some (Threw (Thrown e)) \<Longrightarrow>
       evs = [(clock s, i, Debug (i + 1)), (clock s, i, Action (Inl e))] \<Longrightarrow>
       s' = \<lparr>clock = clock s + d, world = w\<rparr> \<Longrightarrow> Q"
    and throws_retry: "\<And>d e w. action (clock s) (world s) = (d, Inl e, w) \<Longrightarrow> i \<noteq> m - 1 \<Longrightarrow>
       st = None \<Longrightarrow>
       evs = [(clock s, i, Debug (i + 1)), (clock s, i, Action (Inl e)),
              (clock s + d, i, SleepAction ai)] \<Longrightarrow>
       s' = sleep ai \<lparr>clock = clock s + d, world = w\<rparr> \<Longrightarrow> Q"
    and pending: "\<And>d v w vs. action (clock s) (world s) = (d, Inr v, w) \<Longrightarrow>
       verify_loop verify vi (clock s + d + 50 + timer_delay tmo) i
         \<lparr>clock = clock s + d + 50, world = w\<rparr> = (Pending, vs, s') \<Longrightarrow>
       st = Some NeverSettles \<Longrightarrow>
       evs = [(clock s, i, Debug (i + 1)), (clock s, i, Action (Inr v)), (clock s + d, i, Settle),
              (clock s + d + 50, i, SetTimer (clock s + d + 50 + timer_delay tmo))] @ vs \<Longrightarrow> Q"
    and confirmed: "\<And>d v w vs. action (clock s) (world s) = (d, Inr v, w) \<Longrightarrow>
       verify_loop verify vi (clock s + d + 50 + timer_delay tmo) i
         \<lparr>clock = clock s + d + 50, world = w\<rparr> = (Resolved True, vs, s') \<Longrightarrow>
       st = Some (Returned JUndefined) \<Longrightarrow>
       evs = [(clock s, i, Debug (i + 1)), (clock s, i, Action (Inr v)), (clock s + d, i, Settle),
              (clock s + d + 50, i, SetTimer (clock s + d + 50 + timer_delay tmo))] @ vs \<Longrightarrow> Q"
    and timeout_last: "\<And>d v w vs. action (clock s) (world s) = (d, Inr v, w) \<Longrightarrow>
       verify_loop verify vi (clock s + d + 50 + timer_delay tmo) i
         \<lparr>clock = clock s + d + 50, world = w\<rparr> = (Resolved False, vs, s') \<Longrightarrow>
       i = m - 1 \<Longrightarrow> st = None \<Longrightarrow>
       evs = [(clock s, i, Debug (i + 1)), (clock s, i, Action (Inr v)), (clock s + d, i, Settle),
              (clock s + d + 50, i, SetTimer (clock s + d + 50 + timer_delay tmo))] @ vs \<Longrightarrow> Q"
    and timeout_retry: "\<And>d v w vs s3. action (clock s) (world s) = (d, Inr v, w) \<Longrightarrow>
       verify_loop verify vi (clock s + d + 50 + timer_delay tmo) i
         \<lparr>clock = clock s + d + 50, world = w\<rparr> = (Resolved False, vs, s3) \<Longrightarrow>
       i \<noteq> m - 1 \<Longrightarrow> st = None \<Longrightarrow> s' = sleep ai s3 \<Longrightarrow>
       evs = [(clock s, i, Debug (i + 1)), (clock s, i, Action (Inr v)), (clock s + d, i, Settle),
              (clock s + d + 50, i, SetTimer (clock s + d + 50 + timer_delay tmo))] @ vs @
             [(clock s3, i, SleepAction ai)] \<Longrightarrow> Q"
  shows Q
proof -
  obtain d r w where a: "action (clock s) (world s) = (d, r, w)"
    using prod_cases3 by blast
  show Q
  proof (cases r)
    case (Inl e)
    with a once throws_last throws_retry show Q
      by (cases "i = m - 1") (auto simp: attempt_once_def)
  next
    case (Inr v)
    let ?s2 = "\<lparr>clock = clock s + d + 50, world = w\<rparr>"
    obtain res and vs :: "('a, 'e) entry list" and s3
      where v: "verify_loop verify vi (clock s + d + 50 + timer_delay tmo) i ?s2 = (res, vs, s3)"
      using prod_cases3 by blast
    have td: "timer_delay 50 = 50" by (simp add: timer_delay_def)
    note defs = attempt_once_def setTimeout_await_def Let_def
    show Q
    proof (cases res)
      case Pending
      with once a Inr v td pending show Q by (auto simp: defs)
    next
      case (Resolved b)
      show Q
      proof (cases b)
        case True
        with Resolved once a Inr v td confirmed show Q by (auto simp: defs)
      next
        case False
        with Resolved once a Inr v td timeout_last timeout_retry show Q
          by (cases "i = m - 1") (auto simp: defs)
      qed
    qed
  qed
qed

subsection \<open>Counting in the log\<close>

lemma failed_message_text:
  "safe_integer m \<Longrightarrow>
     template_text (failed_message name m) =
       Some (''Failed to perform '' @ name @ '' after '' @ decimal_of_int m @ '' attempts'')"
  by (simp add: failed_message_def number_text_def)

lemma actions_in_append: "actions_in j (xs @ ys) = actions_in j xs @ actions_in j ys"
  by (simp add: actions_in_def)

lemma verifies_in_append: "verifies_in j (xs @ ys) = verifies_in j xs @ verifies_in j ys"
  by (simp add: verifies_in_def)

lemma verify_loop_filter_action:
  assumes "verify_loop verify vi dl i s = (res, evs, s')"
  shows "filter is_action evs = []"
  using verify_loop_no_action [OF assms] by (simp add: filter_empty_conv)

lemma attempt_once_attempt:
  assumes "attempt_once action verify m ai vi tmo i s = (st, evs, s')" and "x \<in> set evs"
  shows "attempt_of x = i"
  using assms
  by (cases rule: attempt_once_cases)
     (auto simp: attempt_of_def dest: verify_loop_attempt)

lemma attempt_once_actions:
  assumes "attempt_once action verify m ai vi tmo i s = (st, evs, s')"
  shows "\<exists>r. filter is_action evs = [(clock s, i, Action r)]"
  using assms
  by (cases rule: attempt_once_cases) (auto simp: verify_loop_filter_action)

lemma filter_attempt_same:
  assumes "\<forall>x \<in> set evs. attempt_of x = i"
  shows "filter (\<lambda>x. attempt_of x = j \<and> Q x) evs = (if j = i then filter Q evs else [])"
  using assms by (induction evs) auto

lemma attempt_once_actions_in:
  assumes "attempt_once action verify m ai vi tmo i s = (st, evs, s')"
  shows "length (actions_in j evs) = (if j = i then 1 else 0)"
proof -
  have all: "\<forall>x \<in> set evs. attempt_of x = i"
    using attempt_once_attempt [OF assms] by blast
  obtain r where "filter is_action evs = [(clock s, i, Action r)]"
    using attempt_once_actions [OF assms] by blast
  then show ?thesis
    unfolding actions_in_def by (simp add: filter_attempt_same [OF all])
qed

lemma attempts_range:
  "attempts action verify m ai vi tmo name i s = (out, evs, s') \<Longrightarrow> x \<in> set evs \<Longrightarrow>
     i \<le> attempt_of x \<and> attempt_of x < m"
proof (induction rule: attempts_induct)
  case (exhausted i s)
  then show ?case by simp
next
  case (stop i s out evs s')
  then show ?case using attempt_once_attempt by fastforce
next
  case (continue i s evs1 s1 out evs2 s')
  then show ?case using attempt_once_attempt by fastforce
qed

lemma attempts_actions_in_before:
  assumes "attempts action verify m ai vi tmo name i s = (out, evs, s')" and "j < i"
  shows "actions_in j evs = []" and "verifies_in j evs = []"
proof -
  have "\<forall>x \<in> set evs. attempt_of x \<noteq> j"
    using attempts_range [OF assms(1)] assms(2) by fastforce
  then show "actions_in j evs = []" and "verifies_in j evs = []"
    by (simp_all add: actions_in_def verifies_in_def filter_empty_conv)
qed

lemma attempts_always_throws:
  assumes throws: "\<And>t w. \<exists>d e w'. action t w = (d, Inl e, w')"
  shows "attempts action verify m ai vi tmo name i s = (out, evs, s') \<Longrightarrow> i < m \<Longrightarrow>
     length (filter is_action evs) = nat (m - i) \<and>
     (\<exists>t e. last evs = (t, m - 1, Action (Inl e)) \<and> out = Threw (Thrown e)) \<and>
     filter is_verify evs = []"
proof (induction rule: attempts_induct)
  case (exhausted i s)
  then show ?case by simp
next
  case (stop i s out evs s')
  from stop(2) show ?case
  proof (cases rule: attempt_once_cases)
    case (throws_last d e w)
    then show ?thesis by simp
  qed (use throws [of "clock s" "world s"] in auto)
next
  case (continue i s evs1 s1 out evs2 s')
  from continue(2) show ?case
  proof (cases rule: attempt_once_cases)
    case (throws_retry d e w)
    with continue.prems have lt: "i + 1 < m" by simp
    from continue.IH [OF lt] obtain t e' where
      n: "length (filter is_action evs2) = nat (m - (i + 1))"
      and l: "last evs2 = (t, m - 1, Action (Inl e'))" and o: "out = Threw (Thrown e')"
      and nv: "filter is_verify evs2 = []"
      by blast
    from n lt have ne: "evs2 \<noteq> []" by auto
    have "length (filter is_action (evs1 @ evs2)) = nat (m - i)"
      using n lt throws_retry by simp
    moreover have "last (evs1 @ evs2) = (t, m - 1, Action (Inl e'))"
      using ne l by simp
    moreover have "filter is_verify (evs1 @ evs2) = []"
      using nv throws_retry by simp
    ultimately show ?thesis using o by blast
  qed (use throws [of "clock s" "world s"] in auto)
qed

subsection \<open>Facts about one iteration\<close>

lemma verify_loop_count:
  "verify_loop verify vi dl i s = (res, evs, s') \<Longrightarrow>
     length (filter is_verify evs) \<le> dl - clock s"
proof (induction rule: verify_loop_induct)
  case (again s d w res evs s')
  have "0 < timer_delay vi" by (rule timer_delay_pos)
  with again show ?case by (simp add: sleep_def setTimeout_await_def)
qed auto

lemma verify_loop_never:
  assumes never: "\<And>t w. \<exists>d w'. verify t w = (d, Inr False, w')"
  shows "verify_loop verify vi dl i s = (res, evs, s') \<Longrightarrow> res = Resolved False"
proof (induction rule: verify_loop_induct)
  case (throws s d e w)
  with never [of "clock s" "world s"] show ?case by simp
next
  case (confirms s d w)
  with never [of "clock s" "world s"] show ?case by simp
qed auto

lemma attempt_once_true:
  assumes "attempt_once action verify m ai vi tmo i s = (st, evs, s')"
    and "(t, j, Verify (Inr True)) \<in> set evs"
  shows "st = Some (Returned JUndefined) \<and>
     (\<exists>pre t'. evs = pre @ [(t, j, Verify (Inr True)), (t', j, Resolve True)]) \<and>
     (\<forall>t'. (t', j, Resolve False) \<notin> set evs)"
  using assms
proof (cases rule: attempt_once_cases)
  case (confirmed d v w vs)
  with assms(2) have mem: "(t, j, Verify (Inr True)) \<in> set vs" by simp
  from verify_loop_true [OF confirmed(2) mem] obtain pre t' where
    vs: "vs = pre @ [(t, j, Verify (Inr True)), (t', j, Resolve True)]"
    and nf: "\<forall>t'. (t', j, Resolve False) \<notin> set vs"
    by blast
  let ?h = "[(clock s, i, Debug (i + 1)), (clock s, i, Action (Inr v)), (clock s + d, i, Settle),
     (clock s + d + 50, i, SetTimer (clock s + d + 50 + timer_delay tmo))]"
  have "evs = (?h @ pre) @ [(t, j, Verify (Inr True)), (t', j, Resolve True)]"
    using confirmed(4) vs by simp
  then have "\<exists>pre t'. evs = pre @ [(t, j, Verify (Inr True)), (t', j, Resolve True)]"
    by blast
  moreover have "\<forall>t'. (t', j, Resolve False) \<notin> set evs"
    using nf confirmed(4) by simp
  ultimately show ?thesis using confirmed(3) by blast
next
  case (pending d v w vs)
  with assms(2) have "(t, j, Verify (Inr True)) \<in> set vs" by simp
  from verify_loop_true [OF pending(2) this] show ?thesis by simp
next
  case (timeout_last d v w vs)
  with assms(2) have "(t, j, Verify (Inr True)) \<in> set vs" by simp
  from verify_loop_true [OF timeout_last(2) this] show ?thesis by simp
next
  case (timeout_retry d v w vs s3)
  with assms(2) have "(t, j, Verify (Inr True)) \<in> set vs" by simp
  from verify_loop_true [OF timeout_retry(2) this] show ?thesis by simp
qed (use assms(2) in auto)

lemma attempt_once_verify_throw:
  assumes "attempt_once action verify m ai vi tmo i s = (st, evs, s')"
    and "(t, j, Verify (Inl e)) \<in> set evs"
  shows "st = Some NeverSettles \<and> last evs = (t, j, Verify (Inl e)) \<and>
     (\<forall>t' b. (t', j, Resolve b) \<notin> set evs)"
  using assms
proof (cases rule: attempt_once_cases)
  case (pending d v w vs)
  with assms(2) have mem: "(t, j, Verify (Inl e)) \<in> set vs" by simp
  from verify_loop_throw [OF pending(2) mem] have
    l: "last vs = (t, j, Verify (Inl e))" and nr: "\<forall>t' b. (t', j, Resolve b) \<notin> set vs"
    by simp_all
  from mem have "vs \<noteq> []" by auto
  with l pending(4) have "last evs = (t, j, Verify (Inl e))" by simp
  moreover have "\<forall>t' b. (t', j, Resolve b) \<notin> set evs" using nr pending(4) by simp
  ultimately show ?thesis using pending(3) by blast
next
  case (confirmed d v w vs)
  with assms(2) have "(t, j, Verify (Inl e)) \<in> set vs" by simp
  from verify_loop_throw [OF confirmed(2) this] show ?thesis by simp
next
  case (timeout_last d v w vs)
  with assms(2) have "(t, j, Verify (Inl e)) \<in> set vs" by simp
  from verify_loop_throw [OF timeout_last(2) this] show ?thesis by simp
next
  case (timeout_retry d v w vs s3)
  with assms(2) have "(t, j, Verify (Inl e)) \<in> set vs" by simp
  from verify_loop_throw [OF timeout_retry(2) this] show ?thesis by simp
qed (use assms(2) in auto)

lemma attempt_once_NeverSettles:
  assumes "attempt_once action verify m ai vi tmo i s = (Some NeverSettles, evs, s')"
  shows "\<exists>t e. (t, i, Verify (Inl e)) \<in> set evs"
  using assms
proof (cases rule: attempt_once_cases)
  case (pending d v w vs)
  from verify_loop_Pending [OF pending(2)] pending(4) show ?thesis by auto
qed simp_all

lemma attempt_once_verified:
  assumes "attempt_once action verify m ai vi tmo i s = (st, evs, s')"
    and "(t, j, Verify r) \<in> set evs"
  shows "\<exists>v. (clock s, i, Action (Inr v)) \<in> set evs"
  using assms by (cases rule: attempt_once_cases) auto

lemma attempt_once_polls:
  fixes evs :: "('a, 'e) entry list"
  assumes "attempt_once action verify m ai vi tmo i s = (st, evs, s')"
    and "(t, j, Action (Inr v)) \<in> set evs"
  shows "verifies_in i evs \<noteq> []"
proof -
  have first: "\<exists>r. (clock s + d + 50, i, Verify r) \<in> set vs"
    if "verify_loop verify vi (clock s + d + 50 + timer_delay tmo) i
          \<lparr>clock = clock s + d + 50, world = w\<rparr> = (res, vs, s3)"
    for d w res s3 and vs :: "('a, 'e) entry list"
    using verify_loop_first [OF that] timer_delay_pos [of tmo] by simp
  have ne: "verifies_in i zs \<noteq> []" if "(t', i, Verify r) \<in> set zs"
    for t' r and zs :: "('a, 'e) entry list"
  proof -
    have "attempt_of (t', i, Verify r) = i \<and> is_verify (t', i, Verify r)"
      by (simp add: attempt_of_def)
    with that show ?thesis
      unfolding verifies_in_def filter_empty_conv by blast
  qed
  from assms show ?thesis
  proof (cases rule: attempt_once_cases)
    case (pending d v w vs)
    from first [OF pending(2)] obtain r where "(clock s + d + 50, i, Verify r) \<in> set vs" ..
    with pending(4) have "(clock s + d + 50, i, Verify r) \<in> set evs" by simp
    then show ?thesis by (rule ne)
  next
    case (confirmed d v w vs)
    from first [OF confirmed(2)] obtain r where "(clock s + d + 50, i, Verify r) \<in> set vs" ..
    with confirmed(4) have "(clock s + d + 50, i, Verify r) \<in> set evs" by simp
    then show ?thesis by (rule ne)
  next
    case (timeout_last d v w vs)
    from first [OF timeout_last(2)] obtain r where "(clock s + d + 50, i, Verify r) \<in> set vs" ..
    with timeout_last(5) have "(clock s + d + 50, i, Verify r) \<in> set evs" by simp
    then show ?thesis by (rule ne)
  next
    case (timeout_retry d v w vs s3)
    from first [OF timeout_retry(2)] obtain r where "(clock s + d + 50, i, Verify r) \<in> set vs" ..
    with timeout_retry(6) have "(clock s + d + 50, i, Verify r) \<in> set evs" by simp
    then show ?thesis by (rule ne)
  qed auto
qed

lemma attempt_once_deadline:
  assumes "attempt_once action verify m ai vi tmo i s = (st, evs, s')"
    and "(t, j, Verify r) \<in> set evs"
  shows "\<exists>t0. (t0, j, SetTimer (t0 + timer_delay tmo)) \<in> set evs \<and> t0 \<le> t \<and>
     t < t0 + timer_delay tmo"
  using assms
proof (cases rule: attempt_once_cases)
  case (pending d v w vs)
  with assms(2) have mem: "(t, j, Verify r) \<in> set vs" by simp
  from verify_loop_time [OF pending(2) mem] verify_loop_attempt [OF pending(2) mem] pending(4)
  show ?thesis by (auto simp: attempt_of_def)
next
  case (confirmed d v w vs)
  with assms(2) have mem: "(t, j, Verify r) \<in> set vs" by simp
  from verify_loop_time [OF confirmed(2) mem] verify_loop_attempt [OF confirmed(2) mem] confirmed(4)
  show ?thesis by (auto simp: attempt_of_def)
next
  case (timeout_last d v w vs)
  with assms(2) have mem: "(t, j, Verify r) \<in> set vs" by simp
  from verify_loop_time [OF timeout_last(2) mem] verify_loop_attempt [OF timeout_last(2) mem]
    timeout_last(5)
  show ?thesis by (auto simp: attempt_of_def)
next
  case (timeout_retry d v w vs s3)
  with assms(2) have mem: "(t, j, Verify r) \<in> set vs" by simp
  from verify_loop_time [OF timeout_retry(2) mem] verify_loop_attempt [OF timeout_retry(2) mem]
    timeout_retry(6)
  show ?thesis by (auto simp: attempt_of_def)
qed (use assms(2) in auto)

lemma attempt_once_verify_count:
  assumes "attempt_once action verify m ai vi tmo i s = (st, evs, s')"
  shows "length (filter is_verify evs) \<le> timer_delay tmo"
  using assms
proof (cases rule: attempt_once_cases)
  case (pending d v w vs)
  from verify_loop_count [OF pending(2)] pending(4) show ?thesis by simp
next
  case (confirmed d v w vs)
  from verify_loop_count [OF confirmed(2)] confirmed(4) show ?thesis by simp
next
  case (timeout_last d v w vs)
  from verify_loop_count [OF timeout_last(2)] timeout_last(5) show ?thesis by simp
next
  case (timeout_retry d v w vs s3)
  from verify_loop_count [OF timeout_retry(2)] timeout_retry(6) show ?thesis by simp
qed simp_all

lemma attempt_once_clock:
  assumes "attempt_once action verify m ai vi tmo i s = (st, evs, s')"
  shows "clock s \<le> clock s' \<and> (\<forall>x \<in> set evs. clock s \<le> time_of x \<and> time_of x \<le> clock s') \<and>
     sorted (map time_of evs)"
  using assms
proof (cases rule: attempt_once_cases)
  case (pending d v w vs)
  from verify_loop_clock [OF pending(2)] pending(4) show ?thesis
    by (auto simp: time_of_def sorted_append)
next
  case (confirmed d v w vs)
  from verify_loop_clock [OF confirmed(2)] confirmed(4) show ?thesis
    by (auto simp: time_of_def sorted_append)
next
  case (timeout_last d v w vs)
  from verify_loop_clock [OF timeout_last(2)] timeout_last(5) show ?thesis
    by (auto simp: time_of_def sorted_append)
next
  case (timeout_retry d v w vs s3)
  from verify_loop_clock [OF timeout_retry(2)] timeout_retry(5,6) show ?thesis
    by (auto simp: time_of_def sorted_append sleep_def setTimeout_await_def)
qed (auto simp: time_of_def sleep_def setTimeout_await_def)

subsection \<open>Facts about the whole loop\<close>

lemma attempts_first:
  fixes evs :: "('a, 'e) entry list"
  assumes "attempts action verify m ai vi tmo name i s = (out, evs, s')" and "i < m"
  shows "\<exists>r. (clock s, i, Action r) \<in> set evs"
proof -
  obtain st and evs1 :: "('a, 'e) entry list" and s1
    where once: "attempt_once action verify m ai vi tmo i s = (st, evs1, s1)"
    using prod_cases3 by blast
  from attempt_once_actions [OF once] obtain r
    where "filter is_action evs1 = [(clock s, i, Action r)]" ..
  then have "(clock s, i, Action r) \<in> set (filter is_action evs1)" by simp
  then have mem: "(clock s, i, Action r) \<in> set evs1" by simp
  obtain out2 and evs2 :: "('a, 'e) entry list" and s2
    where rec: "attempts action verify m ai vi tmo name (i + 1) s1 = (out2, evs2, s2)"
    using prod_cases3 by blast
  from assms once rec have "evs = evs1 \<or> evs = evs1 @ evs2"
    by (cases st) (auto simp: attempts_unfold)
  with mem show ?thesis by auto
qed

lemma attempts_never_confirmed:
  assumes ok: "\<And>t w. \<exists>d v w'. action t w = (d, Inr v, w')"
    and never: "\<And>t w. \<exists>d w'. verify t w = (d, Inr False, w')"
  shows "attempts action verify m ai vi tmo name i s = (out, evs, s') \<Longrightarrow>
     out = Threw (NewErrorTemplate (failed_message name m)) \<and>
     length (filter is_action evs) = nat (m - i) \<and>
     (\<forall>j. i \<le> j \<and> j < m \<longrightarrow> length (actions_in j evs) = 1 \<and> verifies_in j evs \<noteq> [])"
proof (induction rule: attempts_induct)
  case (exhausted i s)
  then show ?case by auto
next
  case (stop i s out evs s')
  from stop(2) show ?case
  proof (cases rule: attempt_once_cases)
    case (pending d v w vs)
    from verify_loop_never [OF never pending(2)] show ?thesis by simp
  next
    case (confirmed d v w vs)
    from verify_loop_never [OF never confirmed(2)] show ?thesis by simp
  qed (use ok [of "clock s" "world s"] in auto)
next
  case (continue i s evs1 s1 out evs2 s')
  from attempt_once_actions [OF continue(2)] obtain r
    where acts: "filter is_action evs1 = [(clock s, i, Action r)]" ..
  from continue(2) have "\<exists>v. (clock s, i, Action (Inr v)) \<in> set evs1"
    by (cases rule: attempt_once_cases) (use ok [of "clock s" "world s"] in auto)
  then obtain v where "(clock s, i, Action (Inr v)) \<in> set evs1" ..
  from attempt_once_polls [OF continue(2) this] have polls: "verifies_in i evs1 \<noteq> []" .
  from continue.IH have out: "out = Threw (NewErrorTemplate (failed_message name m))"
    and n: "length (filter is_action evs2) = nat (m - (i + 1))"
    and each: "\<forall>j. i + 1 \<le> j \<and> j < m \<longrightarrow>
       length (actions_in j evs2) = 1 \<and> verifies_in j evs2 \<noteq> []"
    by simp_all
  have "length (filter is_action (evs1 @ evs2)) = nat (m - i)"
    using acts n continue(1) by simp
  moreover have "length (actions_in j (evs1 @ evs2)) = 1 \<and> verifies_in j (evs1 @ evs2) \<noteq> []"
    if j: "i \<le> j \<and> j < m" for j
  proof (cases "j = i")
    case True
    have "actions_in i evs2 = []"
      using attempts_actions_in_before(1) [OF continue(3), of i] by simp
    with True polls attempt_once_actions_in [OF continue(2), of i] show ?thesis
      by (simp add: actions_in_append verifies_in_append)
  next
    case False
    with j have "i + 1 \<le> j \<and> j < m" by simp
    with each have "length (actions_in j evs2) = 1 \<and> verifies_in j evs2 \<noteq> []" by blast
    with False attempt_once_actions_in [OF continue(2), of j] show ?thesis
      by (simp add: actions_in_append verifies_in_append)
  qed
  ultimately show ?case using out by blast
qed

lemma attempts_confirmed:
  "attempts action verify m ai vi tmo name i s = (out, evs, s') \<Longrightarrow>
     (t, j, Verify (Inr True)) \<in> set evs \<Longrightarrow>
     out = Returned JUndefined \<and> length (filter is_action evs) = nat (j - i + 1) \<and>
     (\<exists>pre t'. evs = pre @ [(t, j, Verify (Inr True)), (t', j, Resolve True)]) \<and>
     (\<forall>t'. (t', j, Resolve False) \<notin> set evs)"
proof (induction rule: attempts_induct)
  case (exhausted i s)
  then show ?case by simp
next
  case (stop i s out evs s')
  from attempt_once_attempt [OF stop(2) stop.prems] have "j = i" by (simp add: attempt_of_def)
  moreover from attempt_once_actions [OF stop(2)]
  have "length (filter is_action evs) = 1" by auto
  ultimately show ?case using attempt_once_true [OF stop(2) stop.prems] by simp
next
  case (continue i s evs1 s1 out evs2 s')
  have "(t, j, Verify (Inr True)) \<notin> set evs1"
    using attempt_once_true [OF continue(2)] by auto
  with continue.prems have mem: "(t, j, Verify (Inr True)) \<in> set evs2" by simp
  from attempts_range [OF continue(3) mem] have j: "i + 1 \<le> j" by (simp add: attempt_of_def)
  from continue.IH [OF mem] obtain pre t' where out: "out = Returned JUndefined"
    and n: "length (filter is_action evs2) = nat (j - (i + 1) + 1)"
    and evs2: "evs2 = pre @ [(t, j, Verify (Inr True)), (t', j, Resolve True)]"
    and nf: "\<forall>t'. (t', j, Resolve False) \<notin> set evs2"
    by blast
  from attempt_once_actions [OF continue(2)]
  have "length (filter is_action evs1) = 1" by auto
  with n j have "length (filter is_action (evs1 @ evs2)) = nat (j - i + 1)" by simp
  moreover have "evs1 @ evs2 = (evs1 @ pre) @ [(t, j, Verify (Inr True)), (t', j, Resolve True)]"
    using evs2 by simp
  then have "\<exists>pre t'. evs1 @ evs2 = pre @ [(t, j, Verify (Inr True)), (t', j, Resolve True)]"
    by blast
  moreover have "(t', j, Resolve False) \<notin> set evs1" for t'
    using attempt_once_attempt [OF continue(2), of "(t', j, Resolve False)"] j
    by (auto simp: attempt_of_def)
  with nf have "\<forall>t'. (t', j, Resolve False) \<notin> set (evs1 @ evs2)" by simp
  ultimately show ?case using out by blast
qed

lemma attempts_verify_throw:
  "attempts action verify m ai vi tmo name i s = (out, evs, s') \<Longrightarrow>
     (t, j, Verify (Inl e)) \<in> set evs \<Longrightarrow>
     out = NeverSettles \<and> last evs = (t, j, Verify (Inl e)) \<and>
     (\<forall>t' b. (t', j, Resolve b) \<notin> set evs)"
proof (induction rule: attempts_induct)
  case (exhausted i s)
  then show ?case by simp
next
  case (stop i s out evs s')
  then show ?case using attempt_once_verify_throw [OF stop(2) stop.prems] by simp
next
  case (continue i s evs1 s1 out evs2 s')
  have "(t, j, Verify (Inl e)) \<notin> set evs1"
    using attempt_once_verify_throw [OF continue(2)] by auto
  with continue.prems have mem: "(t, j, Verify (Inl e)) \<in> set evs2" by simp
  from attempts_range [OF continue(3) mem] have j: "i + 1 \<le> j" by (simp add: attempt_of_def)
  from continue.IH [OF mem] have out: "out = NeverSettles"
    and l: "last evs2 = (t, j, Verify (Inl e))"
    and nr: "\<forall>t' b. (t', j, Resolve b) \<notin> set evs2"
    by simp_all
  from mem have "evs2 \<noteq> []" by auto
  with l have "last (evs1 @ evs2) = (t, j, Verify (Inl e))" by simp
  moreover have "(t', j, Resolve b) \<notin> set evs1" for t' b
    using attempt_once_attempt [OF continue(2), of "(t', j, Resolve b)"] j
    by (auto simp: attempt_of_def)
  with nr have "\<forall>t' b. (t', j, Resolve b) \<notin> set (evs1 @ evs2)" by simp
  ultimately show ?case using out by blast
qed

lemma attempts_NeverSettles:
  "attempts action verify m ai vi tmo name i s = (out, evs, s') \<Longrightarrow> out = NeverSettles \<Longrightarrow>
     \<exists>t j e. (t, j, Verify (Inl e)) \<in> set evs"
proof (induction rule: attempts_induct)
  case (exhausted i s)
  then show ?case by simp
next
  case (stop i s out evs s')
  then show ?case using attempt_once_NeverSettles by blast
next
  case (continue i s evs1 s1 out evs2 s')
  then show ?case by auto
qed

lemma events_in_append: "events_in j (xs @ ys) = events_in j xs @ events_in j ys"
  by (simp add: events_in_def)

lemma events_in_same:
  assumes "\<forall>x \<in> set evs. attempt_of x = i"
  shows "events_in j evs = (if j = i then evs else [])"
  using assms unfolding events_in_def by (induction evs) auto

lemma attempts_events_in_before:
  assumes "attempts action verify m ai vi tmo name i s = (out, evs, s')" and "j < i"
  shows "events_in j evs = []"
proof -
  have "\<forall>x \<in> set evs. attempt_of x \<noteq> j"
    using attempts_range [OF assms(1)] assms(2) by fastforce
  then show ?thesis by (simp add: events_in_def filter_empty_conv)
qed

lemma attempts_action_throw_retry:
  "attempts action verify m ai vi tmo name i s = (out, evs, s') \<Longrightarrow>
     (t, j, Action (Inl e)) \<in> set evs \<Longrightarrow> j < m - 1 \<Longrightarrow>
     (\<exists>d. events_in j evs =
          [(t, j, Debug (j + 1)), (t, j, Action (Inl e)), (t + d, j, SleepAction ai)] \<and>
        (\<exists>r. (t + d + timer_delay ai, j + 1, Action r) \<in> set evs))"
proof (induction rule: attempts_induct)
  case (exhausted i s)
  then show ?case by simp
next
  case (stop i s out evs s')
  from attempt_once_attempt [OF stop(2) stop.prems(1)] have "j = i"
    by (simp add: attempt_of_def)
  from stop(2) stop.prems this show ?case
    by (cases rule: attempt_once_cases) (auto dest: verify_loop_no_action)
next
  case (continue i s evs1 s1 out evs2 s')
  have all1: "\<forall>x \<in> set evs1. attempt_of x = i"
    using attempt_once_attempt [OF continue(2)] by blast
  show ?case
  proof (cases "(t, j, Action (Inl e)) \<in> set evs1")
    case True
    with all1 have ji: "j = i" by (auto simp: attempt_of_def)
    with continue.prems have lt: "i + 1 < m" by simp
    from continue(2) True obtain d w where
      evs1: "evs1 = [(clock s, i, Debug (i + 1)), (clock s, i, Action (Inl e)),
                     (clock s + d, i, SleepAction ai)]"
      and s1: "s1 = sleep ai \<lparr>clock = clock s + d, world = w\<rparr>"
      by (cases rule: attempt_once_cases) (auto dest: verify_loop_no_action)
    from True evs1 have t: "t = clock s" by auto
    from attempts_first [OF continue(3) lt] obtain r
      where "(clock s1, i + 1, Action r) \<in> set evs2" ..
    with s1 t have next_call: "(t + d + timer_delay ai, j + 1, Action r) \<in> set (evs1 @ evs2)"
      using ji by (simp add: sleep_def setTimeout_await_def)
    have "events_in i evs2 = []"
      using attempts_events_in_before [OF continue(3), of i] by simp
    moreover have "events_in i evs1 = evs1"
      by (simp add: events_in_same [OF all1])
    ultimately have "events_in i (evs1 @ evs2) = evs1"
      by (simp only: events_in_append append_Nil2)
    with evs1 t ji have "events_in j (evs1 @ evs2) =
        [(t, j, Debug (j + 1)), (t, j, Action (Inl e)), (t + d, j, SleepAction ai)]"
      by simp
    with next_call show ?thesis by blast
  next
    case False
    with continue.prems have mem: "(t, j, Action (Inl e)) \<in> set evs2" by simp
    from attempts_range [OF continue(3) mem] have "j \<noteq> i" by (simp add: attempt_of_def)
    then have "events_in j (evs1 @ evs2) = events_in j evs2"
      by (simp add: events_in_append events_in_same [OF all1])
    with continue.IH [OF mem continue.prems(2)] show ?thesis by auto
  qed
qed

lemma attempts_verify_after_action:
  "attempts action verify m ai vi tmo name i s = (out, evs, s') \<Longrightarrow>
     (t, j, Verify r) \<in> set evs \<Longrightarrow> \<exists>t' v. (t', j, Action (Inr v)) \<in> set evs"
proof (induction rule: attempts_induct)
  case (exhausted i s)
  then show ?case by simp
next
  case (stop i s out evs s')
  from attempt_once_attempt [OF stop(2) stop.prems] have "j = i" by (simp add: attempt_of_def)
  with attempt_once_verified [OF stop(2) stop.prems] show ?case by blast
next
  case (continue i s evs1 s1 out evs2 s')
  show ?case
  proof (cases "(t, j, Verify r) \<in> set evs1")
    case True
    from attempt_once_attempt [OF continue(2) True] have "j = i" by (simp add: attempt_of_def)
    with attempt_once_verified [OF continue(2) True] show ?thesis by auto
  next
    case False
    with continue.prems have "(t, j, Verify r) \<in> set evs2" by simp
    from continue.IH [OF this] show ?thesis by auto
  qed
qed

lemma attempts_one_action:
  "attempts action verify m ai vi tmo name i s = (out, evs, s') \<Longrightarrow> x \<in> set evs \<Longrightarrow>
     length (actions_in (attempt_of x) evs) = 1"
proof (induction rule: attempts_induct)
  case (exhausted i s)
  then show ?case by simp
next
  case (stop i s out evs s')
  from attempt_once_attempt [OF stop(2) stop.prems] attempt_once_actions_in [OF stop(2), of i]
  show ?case by simp
next
  case (continue i s evs1 s1 out evs2 s')
  show ?case
  proof (cases "x \<in> set evs1")
    case True
    from attempt_once_attempt [OF continue(2) True] have "attempt_of x = i" .
    moreover have "actions_in i evs2 = []"
      using attempts_actions_in_before(1) [OF continue(3), of i] by simp
    ultimately show ?thesis
      using attempt_once_actions_in [OF continue(2), of i] by (simp add: actions_in_append)
  next
    case False
    with continue.prems have mem: "x \<in> set evs2" by simp
    from attempts_range [OF continue(3) mem] have "attempt_of x \<noteq> i" by simp
    with continue.IH [OF mem] attempt_once_actions_in [OF continue(2), of "attempt_of x"]
    show ?thesis by (simp add: actions_in_append)
  qed
qed

lemma sorted_map_const:
  assumes "\<forall>x \<in> set xs. f x = c"
  shows "sorted (map f xs)"
  using assms by (induction xs) auto

lemma attempts_sorted:
  "attempts action verify m ai vi tmo name i s = (out, evs, s') \<Longrightarrow> sorted (map attempt_of evs)"
proof (induction rule: attempts_induct)
  case (exhausted i s)
  then show ?case by simp
next
  case (stop i s out evs s')
  have "\<forall>x \<in> set evs. attempt_of x = i" using attempt_once_attempt [OF stop(2)] by blast
  then show ?case by (rule sorted_map_const)
next
  case (continue i s evs1 s1 out evs2 s')
  have all1: "\<forall>x \<in> set evs1. attempt_of x = i"
    using attempt_once_attempt [OF continue(2)] by blast
  then have "sorted (map attempt_of evs1)" by (rule sorted_map_const)
  moreover have "\<forall>x \<in> set evs1. \<forall>y \<in> set evs2. attempt_of x \<le> attempt_of y"
    using all1 attempts_range [OF continue(3)] by fastforce
  ultimately show ?case using continue.IH by (simp add: sorted_append)
qed

lemma attempts_clock:
  "attempts action verify m ai vi tmo name i s = (out, evs, s') \<Longrightarrow>
     clock s \<le> clock s' \<and> (\<forall>x \<in> set evs. clock s \<le> time_of x \<and> time_of x \<le> clock s') \<and>
     sorted (map time_of evs)"
proof (induction rule: attempts_induct)
  case (exhausted i s)
  then show ?case by simp
next
  case (stop i s out evs s')
  then show ?case using attempt_once_clock by blast
next
  case (continue i s evs1 s1 out evs2 s')
  from attempt_once_clock [OF continue(2)] continue.IH show ?case
    by (fastforce simp: sorted_append)
qed

lemma attempts_deadline:
  "attempts action verify m ai vi tmo name i s = (out, evs, s') \<Longrightarrow>
     (t, j, Verify r) \<in> set evs \<Longrightarrow>
     \<exists>t0. (t0, j, SetTimer (t0 + timer_delay tmo)) \<in> set evs \<and> t0 \<le> t \<and>
       t < t0 + timer_delay tmo"
proof (induction rule: attempts_induct)
  case (exhausted i s)
  then show ?case by simp
next
  case (stop i s out evs s')
  then show ?case using attempt_once_deadline by blast
next
  case (continue i s evs1 s1 out evs2 s')
  show ?case
  proof (cases "(t, j, Verify r) \<in> set evs1")
    case True
    from attempt_once_deadline [OF continue(2) True] show ?thesis by auto
  next
    case False
    with continue.prems have "(t, j, Verify r) \<in> set evs2" by simp
    from continue.IH [OF this] show ?thesis by auto
  qed
qed

lemma verifies_in_le:
  fixes evs :: "('a, 'e) entry list"
  shows "length (verifies_in j evs) \<le> length (filter is_verify evs)"
  unfolding verifies_in_def by (induction evs) auto

lemma attempts_verify_count:
  "attempts action verify m ai vi tmo name i s = (out, evs, s') \<Longrightarrow>
     length (verifies_in j evs) \<le> timer_delay tmo"
proof (induction rule: attempts_induct)
  case (exhausted i s)
  then show ?case by (simp add: verifies_in_def)
next
  case (stop i s out evs s')
  from attempt_once_verify_count [OF stop(2)] verifies_in_le [of j evs] show ?case by simp
next
  case (continue i s evs1 s1 out evs2 s')
  have all1: "\<forall>x \<in> set evs1. attempt_of x = i"
    using attempt_once_attempt [OF continue(2)] by blast
  show ?case
  proof (cases "j = i")
    case True
    have "verifies_in i evs2 = []"
      using attempts_actions_in_before(2) [OF continue(3), of i] by simp
    with True attempt_once_verify_count [OF continue(2)] verifies_in_le [of i evs1]
    show ?thesis by (simp add: verifies_in_append)
  next
    case False
    then have "verifies_in j evs1 = []"
      unfolding verifies_in_def by (simp add: filter_attempt_same [OF all1])
    with continue.IH show ?thesis by (simp add: verifies_in_append)
  qed
qed

subsection \<open>Facts about the loop of \<open>waitFor\<close>\<close>

lemma waitFor_loop_expired:
  "\<not> int (clock s) < endTime \<Longrightarrow> waitFor_loop cb endTime lastError s = (Threw lastError, [], s)"
  by (subst waitFor_loop.simps) simp

lemma waitFor_loop_found:
  "int (clock s) < endTime \<Longrightarrow> cb (clock s) (world s) = (d, Inr v, w) \<Longrightarrow> truthy v \<Longrightarrow>
     waitFor_loop cb endTime lastError s =
       (Returned v, [Inr v], \<lparr>clock = clock s + d, world = w\<rparr>)"
  by (subst waitFor_loop.simps) simp

lemma waitFor_loop_falsy:
  "int (clock s) < endTime \<Longrightarrow> cb (clock s) (world s) = (d, Inr v, w) \<Longrightarrow> \<not> truthy v \<Longrightarrow>
     waitFor_loop cb endTime lastError \<lparr>clock = clock s + d + 100, world = w\<rparr> = (out, rs, s') \<Longrightarrow>
     waitFor_loop cb endTime lastError s = (out, Inr v # rs, s')"
  by (subst waitFor_loop.simps) (simp add: setTimeout_await_def timer_delay_def)

lemma waitFor_loop_caught:
  "int (clock s) < endTime \<Longrightarrow> cb (clock s) (world s) = (d, Inl e, w) \<Longrightarrow>
     waitFor_loop cb endTime (Thrown e) \<lparr>clock = clock s + d + 100, world = w\<rparr> = (out, rs, s') \<Longrightarrow>
     waitFor_loop cb endTime lastError s = (out, Inl e # rs, s')"
  by (subst waitFor_loop.simps) (simp add: setTimeout_await_def timer_delay_def)

lemma waitFor_loop_induct [consumes 1, case_names expired found falsy caught]:
  fixes rs :: "('e + js_value) list"
  assumes run: "waitFor_loop cb endTime lastError s = (out, rs, s')"
    and expired: "\<And>lastError s. \<not> int (clock s) < endTime \<Longrightarrow>
       P lastError s (Threw lastError) [] s"
    and found: "\<And>lastError s d v w. int (clock s) < endTime \<Longrightarrow>
       cb (clock s) (world s) = (d, Inr v, w) \<Longrightarrow> truthy v \<Longrightarrow>
       P lastError s (Returned v) [Inr v] \<lparr>clock = clock s + d, world = w\<rparr>"
    and falsy: "\<And>lastError s d v w out rs s'. int (clock s) < endTime \<Longrightarrow>
       cb (clock s) (world s) = (d, Inr v, w) \<Longrightarrow> \<not> truthy v \<Longrightarrow>
       waitFor_loop cb endTime lastError \<lparr>clock = clock s + d + 100, world = w\<rparr> = (out, rs, s') \<Longrightarrow>
       P lastError \<lparr>clock = clock s + d + 100, world = w\<rparr> out rs s' \<Longrightarrow>
       P lastError s out (Inr v # rs) s'"
    and caught: "\<And>lastError s d e w out rs s'. int (clock s) < endTime \<Longrightarrow>
       cb (clock s) (world s) = (d, Inl e, w) \<Longrightarrow>
       waitFor_loop cb endTime (Thrown e) \<lparr>clock = clock s + d + 100, world = w\<rparr> = (out, rs, s') \<Longrightarrow>
       P (Thrown e) \<lparr>clock = clock s + d + 100, world = w\<rparr> out rs s' \<Longrightarrow>
       P lastError s out (Inl e # rs) s'"
  shows "P lastError s out rs s'"
  using run
proof (induction "nat (endTime - int (clock s))" arbitrary: lastError s out rs s' rule: less_induct)
  case less
  show ?case
  proof (cases "int (clock s) < endTime")
    case False
    with less.prems expired show ?thesis by (auto simp: waitFor_loop_expired)
  next
    case True
    obtain d r w where c: "cb (clock s) (world s) = (d, r, w)"
      using prod_cases3 by blast
    let ?s2 = "\<lparr>clock = clock s + d + 100, world = w\<rparr>"
    have smaller: "nat (endTime - int (clock ?s2)) < nat (endTime - int (clock s))"
      using True by simp
    show ?thesis
    proof (cases r)
      case (Inl e)
      obtain out2 and rs2 :: "('e + js_value) list" and s2'
        where rec: "waitFor_loop cb endTime (Thrown e) ?s2 = (out2, rs2, s2')"
        using prod_cases3 by blast
      from less.hyps [OF smaller rec] have "P (Thrown e) ?s2 out2 rs2 s2'" .
      with caught [OF True _ rec] c Inl have "P lastError s out2 (Inl e # rs2) s2'" by simp
      moreover have "waitFor_loop cb endTime lastError s = (out2, Inl e # rs2, s2')"
        using waitFor_loop_caught [OF True _ rec] c Inl by simp
      ultimately show ?thesis using less.prems by auto
    next
      case (Inr v)
      show ?thesis
      proof (cases "truthy v")
        case True
        with \<open>int (clock s) < endTime\<close> c Inr less.prems found show ?thesis
          by (auto simp: waitFor_loop_found)
      next
        case False
        obtain out2 and rs2 :: "('e + js_value) list" and s2'
          where rec: "waitFor_loop cb endTime lastError ?s2 = (out2, rs2, s2')"
          using prod_cases3 by blast
        from less.hyps [OF smaller rec] have "P lastError ?s2 out2 rs2 s2'" .
        with falsy [OF \<open>int (clock s) < endTime\<close> _ False rec] c Inr
        have "P lastError s out2 (Inr v # rs2) s2'" by simp
        moreover have "waitFor_loop cb endTime lastError s = (out2, Inr v # rs2, s2')"
          using waitFor_loop_falsy [OF \<open>int (clock s) < endTime\<close> _ False rec] c Inr by simp
        ultimately show ?thesis using less.prems by auto
      qed
    qed
  qed
qed

lemma waitFor_loop_gives_up:
  "waitFor_loop cb endTime lastError s = (out, rs, s') \<Longrightarrow>
     (\<And>v. Inr v \<in> set rs \<Longrightarrow> \<not> truthy v) \<Longrightarrow>
     out = Threw (case last_thrown rs of Some e \<Rightarrow> Thrown e | None \<Rightarrow> lastError)"
proof (induction rule: waitFor_loop_induct)
  case (falsy lastError s d v w out rs s')
  then show ?case by (auto split: option.splits)
next
  case (caught lastError s d e w out rs s')
  then show ?case by (auto split: option.splits)
qed auto

lemma waitFor_loop_results:
  "waitFor_loop cb endTime lastError s = (out, rs, s') \<Longrightarrow> r \<in> set rs \<Longrightarrow>
     \<exists>t w d w'. cb t w = (d, r, w')"
  by (induction rule: waitFor_loop_induct) auto

lemma last_thrown_last:
  "rs \<noteq> [] \<Longrightarrow> last rs = Inl e \<Longrightarrow> last_thrown rs = Some e"
proof (induction rs)
  case Nil
  then show ?case by simp
next
  case (Cons r rs)
  show ?case
  proof (cases "rs = []")
    case True
    with Cons.prems show ?thesis by simp
  next
    case False
    with Cons have "last_thrown rs = Some e" by simp
    then show ?thesis by simp
  qed
qed

lemma waitFor_loop_polls_once:
  fixes rs :: "('e + js_value) list"
  assumes "waitFor_loop cb endTime lastError s = (out, rs, s')" and "int (clock s) < endTime"
  shows "rs \<noteq> []"
  using assms by (induction rule: waitFor_loop_induct) auto

section \<open>Properties of \<open>reliableAction\<close>\<close>

text \<open>
  C10: when the \<open>maxAttempts\<close> in force is 0 or negative, \<open>reliableAction\<close> calls neither
  \<open>action\<close> nor \<open>verify\<close> (its log is empty, and clock and world are untouched) and
  throws at once the new error made from the template literal \<open>Failed to perform
  ${actionName} after ${maxAttempts} attempts\<close>, which carries the action name and the
  given count; for a count that is a safe integer the message reads with the count in
  decimal digits.
\<close>

theorem reliableAction_no_attempts:
  assumes "option_or (maxAttempts opts) 3 \<le> 0"
  shows "reliableAction action verify opts s =
       (Threw (NewErrorTemplate
          [Text ''Failed to perform '', Text (option_or (actionName opts) ''action''),
           Text '' after '', Number (option_or (maxAttempts opts) 3), Text '' attempts'']),
        [], s) \<and>
     (safe_integer (option_or (maxAttempts opts) 3) \<longrightarrow>
        template_text
          [Text ''Failed to perform '', Text (option_or (actionName opts) ''action''),
           Text '' after '', Number (option_or (maxAttempts opts) 3), Text '' attempts''] =
        Some (''Failed to perform '' @ option_or (actionName opts) ''action'' @ '' after '' @
              decimal_of_int (option_or (maxAttempts opts) 3) @ '' attempts''))"
  using assms failed_message_text [of "option_or (maxAttempts opts) 3"
      "option_or (actionName opts) ''action''"]
  by (simp add: reliableAction_def attempts_unfold failed_message_def)

theorem reliableAction_no_attempts_witness:
  "reliableAction (\<lambda>t w. (7, Inr (), Suc w)) (\<lambda>t w. (3, Inr True, Suc w))
     \<lparr>maxAttempts = Some 0, actionInterval = None, verifyInterval = None, timeout = None,
      actionName = Some ''check''\<rparr> \<lparr>clock = 0, world = 0\<rparr> =
   (Threw (NewErrorTemplate [Text ''Failed to perform '', Text ''check'', Text '' after '',
      Number 0, Text '' attempts'']) :: nat outcome,
    [] :: (unit, nat) entry list, \<lparr>clock = 0, world = (0::nat)\<rparr>) \<and>
   template_text [Text ''Failed to perform '', Text ''check'', Text '' after '',
      Number 0, Text '' attempts''] = Some ''Failed to perform check after 0 attempts'' \<and>
   reliableAction (\<lambda>t w. (7, Inr (), Suc w)) (\<lambda>t w. (3, Inr True, Suc w))
     \<lparr>maxAttempts = Some (- 2), actionInterval = None, verifyInterval = None, timeout = None,
      actionName = None\<rparr> \<lparr>clock = 0, world = 0\<rparr> =
   (Threw (NewErrorTemplate [Text ''Failed to perform '', Text ''action'', Text '' after '',
      Number (- 2), Text '' attempts'']) :: nat outcome,
    [] :: (unit, nat) entry list, \<lparr>clock = 0, world = (0::nat)\<rparr>) \<and>
   template_text [Text ''Failed to perform '', Text ''action'', Text '' after '',
      Number (- 2), Text '' attempts''] = Some ''Failed to perform action after -2 attempts''"
  using
    reliableAction_no_attempts [of
      "\<lparr>maxAttempts = Some 0, actionInterval = None, verifyInterval = None, timeout = None,
        actionName = Some ''check''\<rparr>"
      "\<lambda>t w. (7, Inr (), Suc w)" "\<lambda>t w. (3, Inr True, Suc w)" "\<lparr>clock = 0, world = (0::nat)\<rparr>"]
    reliableAction_no_attempts [of
      "\<lparr>maxAttempts = Some (- 2), actionInterval = None, verifyInterval = None, timeout = None,
        actionName = None\<rparr>"
      "\<lambda>t w. (7, Inr (), Suc w)" "\<lambda>t w. (3, Inr True, Suc w)" "\<lparr>clock = 0, world = (0::nat)\<rparr>"]
  by (simp add: option_or_def safe_integer_def number_text_def decimal_of_int_def)

text \<open>
  C2: when every call of \<open>action\<close> throws and \<open>maxAttempts\<close> is positive,
  \<open>reliableAction\<close> calls \<open>action\<close> exactly \<open>maxAttempts\<close> times, the last effect of the
  run is the call of \<open>action\<close> in the last iteration, and the function throws the very
  value \<open>e\<close> which that call threw (\<open>Thrown e\<close>, not a new error). \<open>verify\<close> is never
  called.
\<close>

theorem reliableAction_action_always_throws:
  assumes "\<And>t w. \<exists>d e w'. action t w = (d, Inl e, w')"
    and "0 < option_or (maxAttempts opts) 3"
    and "reliableAction action verify opts s = (out, evs, s')"
  shows "length (filter is_action evs) = nat (option_or (maxAttempts opts) 3) \<and>
     (\<exists>t e. last evs = (t, option_or (maxAttempts opts) 3 - 1, Action (Inl e)) \<and>
        out = Threw (Thrown e)) \<and>
     filter is_verify evs = []"
  using attempts_always_throws [OF assms(1) assms(3) [unfolded reliableAction_def] assms(2)]
  by simp

theorem reliableAction_action_always_throws_witness:
  "reliableAction (\<lambda>t w. (5, Inl t, Suc w)) (\<lambda>t w. (0, Inr True, w))
     \<lparr>maxAttempts = None, actionInterval = None, verifyInterval = None, timeout = None,
      actionName = None\<rparr> \<lparr>clock = 0, world = 0\<rparr> =
   (Threw (Thrown 210),
    [(0, 0, Debug 1), (0, 0, Action (Inl 0)), (5, 0, SleepAction 100),
     (105, 1, Debug 2), (105, 1, Action (Inl 105)), (110, 1, SleepAction 100),
     (210, 2, Debug 3), (210, 2, Action (Inl 210)) :: (unit, nat) entry],
    \<lparr>clock = 215, world = (3::nat)\<rparr>) \<and>
   length (filter is_action
     [(0, 0, Debug 1), (0, 0, Action (Inl 0)), (5, 0, SleepAction 100),
      (105, 1, Debug 2), (105, 1, Action (Inl 105)), (110, 1, SleepAction 100),
      (210, 2, Debug 3), (210, 2, Action (Inl 210)) :: (unit, nat) entry]) = 3"
proof -
  let ?action = "\<lambda>(t::nat) (w::nat). (5::nat, Inl t :: nat + unit, Suc w)"
  let ?verify = "\<lambda>(t::nat) (w::nat). (0::nat, Inr True :: nat + bool, w)"
  let ?opts = "\<lparr>maxAttempts = None, actionInterval = None, verifyInterval = None,
    timeout = None, actionName = None\<rparr>"
  let ?evs = "[(0, 0, Debug 1), (0, 0, Action (Inl 0)), (5, 0, SleepAction 100),
     (105, 1, Debug 2), (105, 1, Action (Inl 105)), (110, 1, SleepAction 100),
     (210, 2, Debug 3), (210, 2, Action (Inl 210)) :: (unit, nat) entry]"
  have run: "reliableAction ?action ?verify ?opts \<lparr>clock = 0, world = 0\<rparr> =
      (Threw (Thrown 210), ?evs, \<lparr>clock = 215, world = 3\<rparr>)"
    by (simp add: reliableAction_def option_or_def attempts.simps sleep_def
        setTimeout_await_def timer_delay_def)
  have throws: "\<And>t w. \<exists>d e w'. ?action t w = (d, Inl e, w')" by simp
  have pos: "0 < option_or (maxAttempts ?opts) 3" by (simp add: option_or_def)
  from reliableAction_action_always_throws [OF throws pos run] run
  show ?thesis by simp
qed

text \<open>
  C1, as amended: when no call of \<open>action\<close> throws and every call of \<open>verify\<close> returns
  false, \<open>reliableAction\<close> throws the new error made from the template literal \<open>Failed to
  perform ${actionName} after ${maxAttempts} attempts\<close> (so not a value thrown by
  \<open>action\<close>), after exactly \<open>maxAttempts\<close> calls of \<open>action\<close>, one in each iteration, and
  at least one call of \<open>verify\<close> in each iteration. For a count that is a safe integer the
  message reads with the count in decimal digits.
\<close>

theorem reliableAction_never_confirmed:
  assumes "\<And>t w. \<exists>d v w'. action t w = (d, Inr v, w')"
    and "\<And>t w. \<exists>d w'. verify t w = (d, Inr False, w')"
    and "reliableAction action verify opts s = (out, evs, s')"
  shows "out = Threw (NewErrorTemplate
          [Text ''Failed to perform '', Text (option_or (actionName opts) ''action''),
           Text '' after '', Number (option_or (maxAttempts opts) 3), Text '' attempts'']) \<and>
     (safe_integer (option_or (maxAttempts opts) 3) \<longrightarrow>
        template_text
          [Text ''Failed to perform '', Text (option_or (actionName opts) ''action''),
           Text '' after '', Number (option_or (maxAttempts opts) 3), Text '' attempts''] =
        Some (''Failed to perform '' @ option_or (actionName opts) ''action'' @ '' after '' @
              decimal_of_int (option_or (maxAttempts opts) 3) @ '' attempts'')) \<and>
     length (filter is_action evs) = nat (option_or (maxAttempts opts) 3) \<and>
     (\<forall>j. 0 \<le> j \<and> j < option_or (maxAttempts opts) 3 \<longrightarrow>
        length (actions_in j evs) = 1 \<and> verifies_in j evs \<noteq> [])"
  using attempts_never_confirmed [OF assms(1) assms(2) assms(3) [unfolded reliableAction_def]]
    failed_message_text [of "option_or (maxAttempts opts) 3"
      "option_or (actionName opts) ''action''"]
  by (simp add: failed_message_def)

theorem reliableAction_never_confirmed_witness:
  "(case reliableAction (\<lambda>t w. (3, Inr (), w)) (\<lambda>t w. (2, Inr False, Suc w))
      \<lparr>maxAttempts = Some 2, actionInterval = Some 10, verifyInterval = Some 15,
       timeout = Some 20, actionName = Some ''check''\<rparr> \<lparr>clock = 0, world = 0 :: nat\<rparr>
    of (out, evs, s') \<Rightarrow>
      out = (Threw (NewErrorTemplate [Text ''Failed to perform '', Text ''check'',
               Text '' after '', Number 2, Text '' attempts'']) :: nat outcome) \<and>
      template_text [Text ''Failed to perform '', Text ''check'', Text '' after '', Number 2,
        Text '' attempts''] = Some ''Failed to perform check after 2 attempts'' \<and>
      evs = [(0, 0, Debug 1), (0, 0, Action (Inr ())), (3, 0, Settle),
        (53, 0, SetTimer 73), (53, 0, Verify (Inr False)),
        (55, 0, SleepVerify 15), (70, 0, Verify (Inr False)),
        (72, 0, SleepVerify 15), (87, 0, Resolve False), (87, 0, SleepAction 10),
        (97, 1, Debug 2), (97, 1, Action (Inr ())), (100, 1, Settle),
        (150, 1, SetTimer 170), (150, 1, Verify (Inr False)),
        (152, 1, SleepVerify 15), (167, 1, Verify (Inr False)),
        (169, 1, SleepVerify 15), (184, 1, Resolve False)] \<and>
      length (filter is_action evs) = 2 \<and>
      length (actions_in 0 evs) = 1 \<and> length (actions_in 1 evs) = 1 \<and>
      length (verifies_in 0 evs) = 2 \<and> length (verifies_in 1 evs) = 2)"
proof -
  let ?action = "\<lambda>(t::nat) (w::nat). (3::nat, Inr () :: nat + unit, w)"
  let ?verify = "\<lambda>(t::nat) (w::nat). (2::nat, Inr False :: nat + bool, Suc w)"
  let ?opts = "\<lparr>maxAttempts = Some 2, actionInterval = Some 10, verifyInterval = Some 15,
    timeout = Some 20, actionName = Some ''check''\<rparr>"
  let ?evs = "[(0, 0, Debug 1), (0, 0, Action (Inr ())), (3, 0, Settle),
        (53, 0, SetTimer 73), (53, 0, Verify (Inr False)),
        (55, 0, SleepVerify 15), (70, 0, Verify (Inr False)),
        (72, 0, SleepVerify 15), (87, 0, Resolve False), (87, 0, SleepAction 10),
        (97, 1, Debug 2), (97, 1, Action (Inr ())), (100, 1, Settle),
        (150, 1, SetTimer 170), (150, 1, Verify (Inr False)),
        (152, 1, SleepVerify 15), (167, 1, Verify (Inr False)),
        (169, 1, SleepVerify 15), (184, 1, Resolve False) :: (unit, nat) entry]"
  have run: "reliableAction ?action ?verify ?opts \<lparr>clock = 0, world = 0\<rparr> =
      (Threw (NewErrorTemplate [Text ''Failed to perform '', Text ''check'',
         Text '' after '', Number 2, Text '' attempts'']), ?evs,
       \<lparr>clock = 184, world = 4\<rparr>)"
    by (simp add: reliableAction_def option_or_def attempts.simps verify_loop.simps sleep_def
        setTimeout_await_def timer_delay_def failed_message_def)
  have ok: "\<And>t w. \<exists>d v w'. ?action t w = (d, Inr v, w')" by simp
  have never: "\<And>t w. \<exists>d w'. ?verify t w = (d, Inr False, w')" by simp
  from reliableAction_never_confirmed [OF ok never run]
  show ?thesis unfolding run
    by (simp add: option_or_def actions_in_def verifies_in_def attempt_of_def
        safe_integer_def number_text_def decimal_of_int_def)
qed

text \<open>
  The counterexample to C1 as stated: a verifier that throws whenever it is called never
  returns true, and with it, under the default policy of three attempts, the run never
  settles: \<open>action\<close> is called once, the first call of \<open>verify\<close> throws inside the
  executor of \<open>verifyPromise\<close>, and no error is thrown to the caller.
\<close>

theorem reliableAction_throwing_verifier_counterexample:
  "reliableAction action_returns verify_throws
      \<lparr>maxAttempts = None, actionInterval = None, verifyInterval = None,
       timeout = None, actionName = None\<rparr> \<lparr>clock = 0, world = 0\<rparr> =
   (NeverSettles,
    [(0, 0, Debug 1), (0, 0, Action (Inr ())), (0, 0, Settle),
     (50, 0, SetTimer 1050), (50, 0, Verify (Inl 7))],
    \<lparr>clock = 50, world = 0\<rparr>)"
  by (simp add: action_returns_def verify_throws_def reliableAction_def option_or_def
      attempts.simps verify_loop.simps sleep_def setTimeout_await_def timer_delay_def)



text \<open>
  C4: when the call of \<open>action\<close> in an iteration \<open>j\<close> that is not the last one throws,
  the effects of that iteration are exactly the debug line, the call itself and a
  \<open>sleep(actionInterval)\<close>: \<open>verify\<close> is not called in it, and the next thing to happen
  is the call of \<open>action\<close> of iteration \<open>j + 1\<close>, one timer delay of \<open>actionInterval\<close>
  after the failed call ended. In every run, an iteration in which \<open>verify\<close> is called
  is one whose call of \<open>action\<close> returned.
\<close>

theorem reliableAction_action_throw_swallowed:
  assumes "reliableAction action verify opts s = (out, evs, s')"
  shows "(\<forall>t j e. (t, j, Action (Inl e)) \<in> set evs \<and> j < option_or (maxAttempts opts) 3 - 1 \<longrightarrow>
        verifies_in j evs = [] \<and>
        (\<exists>d. events_in j evs =
             [(t, j, Debug (j + 1)), (t, j, Action (Inl e)),
              (t + d, j, SleepAction (option_or (actionInterval opts) 100))] \<and>
           (\<exists>r. (t + d + timer_delay (option_or (actionInterval opts) 100), j + 1, Action r)
              \<in> set evs))) \<and>
     (\<forall>t j r. (t, j, Verify r) \<in> set evs \<longrightarrow> (\<exists>t' v. (t', j, Action (Inr v)) \<in> set evs))"
proof -
  note run = assms [unfolded reliableAction_def]
  have filt: "verifies_in j evs = filter is_verify (events_in j evs)" for j
    by (simp add: verifies_in_def events_in_def)
  have "verifies_in j evs = [] \<and>
        (\<exists>d. events_in j evs =
             [(t, j, Debug (j + 1)), (t, j, Action (Inl e)),
              (t + d, j, SleepAction (option_or (actionInterval opts) 100))] \<and>
           (\<exists>r. (t + d + timer_delay (option_or (actionInterval opts) 100), j + 1, Action r)
              \<in> set evs))"
    if "(t, j, Action (Inl e)) \<in> set evs" and "j < option_or (maxAttempts opts) 3 - 1"
    for t j e
  proof -
    from attempts_action_throw_retry [OF run that] obtain d where
      ev: "events_in j evs =
             [(t, j, Debug (j + 1)), (t, j, Action (Inl e)),
              (t + d, j, SleepAction (option_or (actionInterval opts) 100))]"
      and nx: "\<exists>r. (t + d + timer_delay (option_or (actionInterval opts) 100), j + 1, Action r)
              \<in> set evs"
      by blast
    from ev have "verifies_in j evs = []" by (simp add: filt)
    with ev nx show ?thesis by blast
  qed
  moreover have "\<exists>t' v. (t', j, Action (Inr v)) \<in> set evs" if "(t, j, Verify r) \<in> set evs"
    for t j r
    using attempts_verify_after_action [OF run that] .
  ultimately show ?thesis by blast
qed

theorem reliableAction_action_throw_swallowed_witness:
  "(case reliableAction (\<lambda>t w. (5, if w = 0 then Inl 1 else Inr (), Suc w))
      (\<lambda>t w. (2, Inr True, w))
      \<lparr>maxAttempts = Some 2, actionInterval = None, verifyInterval = None,
       timeout = None, actionName = None\<rparr> \<lparr>clock = 0, world = 0 :: nat\<rparr>
    of (out, evs, s') \<Rightarrow>
      out = (Returned JUndefined :: nat outcome) \<and>
      evs = [(0, 0, Debug 1), (0, 0, Action (Inl 1)), (5, 0, SleepAction 100),
        (105, 1, Debug 2), (105, 1, Action (Inr ())), (110, 1, Settle),
        (160, 1, SetTimer 1160), (160, 1, Verify (Inr True)), (162, 1, Resolve True)] \<and>
      verifies_in 0 evs = [] \<and>
      (\<exists>d. events_in 0 evs = [(0, 0, Debug 1), (0, 0, Action (Inl 1)), (0 + d, 0, SleepAction 100)] \<and>
         (\<exists>r. (0 + d + timer_delay 100, 1, Action r) \<in> set evs)) \<and>
      (\<exists>t' v. (t', 1, Action (Inr v)) \<in> set evs))"
proof -
  let ?action = "\<lambda>(t::nat) (w::nat). (5::nat, if w = 0 then Inl 1 else Inr () :: nat + unit, Suc w)"
  let ?verify = "\<lambda>(t::nat) (w::nat). (2::nat, Inr True :: nat + bool, w)"
  let ?opts = "\<lparr>maxAttempts = Some 2, actionInterval = None, verifyInterval = None,
    timeout = None, actionName = None\<rparr>"
  let ?evs = "[(0, 0, Debug 1), (0, 0, Action (Inl 1)), (5, 0, SleepAction 100),
        (105, 1, Debug 2), (105, 1, Action (Inr ())), (110, 1, Settle),
        (160, 1, SetTimer 1160), (160, 1, Verify (Inr True)), (162, 1, Resolve True)
        :: (unit, nat) entry]"
  have run: "reliableAction ?action ?verify ?opts \<lparr>clock = 0, world = 0\<rparr> =
      (Returned JUndefined, ?evs, \<lparr>clock = 162, world = 2\<rparr>)"
    by (simp add: reliableAction_def option_or_def attempts.simps verify_loop.simps sleep_def
        setTimeout_await_def timer_delay_def)
  note inst = reliableAction_action_throw_swallowed [OF run]
  have a: "(0, 0, Action (Inl 1)) \<in> set ?evs \<and> (0::int) < option_or (maxAttempts ?opts) 3 - 1"
    by (simp add: option_or_def)
  have v: "(160, 1, Verify (Inr True)) \<in> set ?evs" by simp
  from inst a have first: "verifies_in 0 ?evs = [] \<and>
      (\<exists>d. events_in 0 ?evs =
           [(0, 0, Debug (0 + 1)), (0, 0, Action (Inl 1)),
            (0 + d, 0, SleepAction (option_or (actionInterval ?opts) 100))] \<and>
         (\<exists>r. (0 + d + timer_delay (option_or (actionInterval ?opts) 100), 0 + 1, Action r)
            \<in> set ?evs))"
    by blast
  from inst v have second: "\<exists>t' v. (t', 1, Action (Inr v)) \<in> set ?evs" by blast
  from first second show ?thesis unfolding run by (simp add: option_or_def)
qed

text \<open>
  C9: \<open>reliableAction\<close> never settles exactly when some call of \<open>verify\<close> throws. That
  call is then the last effect of the run: the promise \<open>verifyPromise\<close> of its
  iteration is neither resolved nor rejected, the \<open>catch\<close> of the iteration does not run,
  and nothing is returned or thrown to the caller. So a run ends in a return or a throw
  only if no call of \<open>verify\<close> made in it throws.
\<close>

theorem reliableAction_verify_throw_never_settles:
  assumes "reliableAction action verify opts s = (out, evs, s')"
  shows "(out = NeverSettles \<longleftrightarrow> (\<exists>t j e. (t, j, Verify (Inl e)) \<in> set evs)) \<and>
     (\<forall>t j e. (t, j, Verify (Inl e)) \<in> set evs \<longrightarrow>
        last evs = (t, j, Verify (Inl e)) \<and> (\<forall>t' b. (t', j, Resolve b) \<notin> set evs))"
proof -
  note run = assms [unfolded reliableAction_def]
  have "out = NeverSettles \<Longrightarrow> \<exists>t j e. (t, j, Verify (Inl e)) \<in> set evs"
    using attempts_NeverSettles [OF run] .
  moreover have "out = NeverSettles \<and> last evs = (t, j, Verify (Inl e)) \<and>
      (\<forall>t' b. (t', j, Resolve b) \<notin> set evs)"
    if "(t, j, Verify (Inl e)) \<in> set evs" for t j e
    using attempts_verify_throw [OF run that] .
  ultimately show ?thesis by blast
qed

theorem reliableAction_verify_throw_never_settles_witness:
  "(case reliableAction (\<lambda>t w. (0, Inr (), w))
      (\<lambda>t w. (1, if w = 1 then Inl 7 else Inr False, Suc w))
      \<lparr>maxAttempts = None, actionInterval = None, verifyInterval = None,
       timeout = None, actionName = None\<rparr> \<lparr>clock = 0, world = 0 :: nat\<rparr>
    of (out, evs, s') \<Rightarrow>
      out = (NeverSettles :: nat outcome) \<and>
      evs = [(0, 0, Debug 1), (0, 0, Action (Inr ())), (0, 0, Settle),
        (50, 0, SetTimer 1050), (50, 0, Verify (Inr False)),
        (51, 0, SleepVerify 50), (101, 0, Verify (Inl 7))] \<and>
      last evs = (101, 0, Verify (Inl 7)) \<and> filter (\<lambda>x. \<exists>b. snd (snd x) = Resolve b) evs = [])"
proof -
  let ?action = "\<lambda>(t::nat) (w::nat). (0::nat, Inr () :: nat + unit, w)"
  let ?verify = "\<lambda>(t::nat) (w::nat). (1::nat, if w = 1 then Inl 7 else Inr False :: nat + bool, Suc w)"
  let ?opts = "\<lparr>maxAttempts = None, actionInterval = None, verifyInterval = None,
    timeout = None, actionName = None\<rparr>"
  let ?evs = "[(0, 0, Debug 1), (0, 0, Action (Inr ())), (0, 0, Settle),
        (50, 0, SetTimer 1050), (50, 0, Verify (Inr False)),
        (51, 0, SleepVerify 50), (101, 0, Verify (Inl 7)) :: (unit, nat) entry]"
  have run: "reliableAction ?action ?verify ?opts \<lparr>clock = 0, world = 0\<rparr> =
      (NeverSettles, ?evs, \<lparr>clock = 102, world = 2\<rparr>)"
    by (simp add: reliableAction_def option_or_def attempts.simps verify_loop.simps sleep_def
        setTimeout_await_def timer_delay_def)
  have v: "(101, 0, Verify (Inl 7)) \<in> set ?evs" by simp
  from reliableAction_verify_throw_never_settles [OF run] v
  have "NeverSettles = (NeverSettles :: nat outcome) \<and> last ?evs = (101, 0, Verify (Inl 7))"
    by blast
  then show ?thesis unfolding run by simp
qed

text \<open>
  C8: in every run each iteration of the loop that leaves an effect calls \<open>action\<close>
  exactly once; \<open>verify\<close> is called in it at most once for each millisecond of the
  timer delay of \<open>timeout\<close>, and each of its calls starts after the timer of the
  iteration was set and before the timer's deadline; and the log is ordered by iteration
  and by time, so every effect of an iteration, its \<open>resolve\<close> or its throwing call of
  \<open>action\<close> included, comes before every effect of the next one.
\<close>

theorem reliableAction_attempts_sequential:
  assumes "reliableAction action verify opts s = (out, evs, s')"
  shows "(\<forall>x \<in> set evs. length (actions_in (attempt_of x) evs) = 1) \<and>
     (\<forall>j. length (verifies_in j evs) \<le> timer_delay (option_or (timeout opts) 1000)) \<and>
     (\<forall>t j r. (t, j, Verify r) \<in> set evs \<longrightarrow>
        (\<exists>t0. (t0, j, SetTimer (t0 + timer_delay (option_or (timeout opts) 1000))) \<in> set evs \<and>
           t0 \<le> t \<and> t < t0 + timer_delay (option_or (timeout opts) 1000))) \<and>
     sorted (map attempt_of evs) \<and> sorted (map time_of evs)"
proof -
  note run = assms [unfolded reliableAction_def]
  have "\<forall>x \<in> set evs. length (actions_in (attempt_of x) evs) = 1"
    using attempts_one_action [OF run] by blast
  moreover have "\<forall>j. length (verifies_in j evs) \<le> timer_delay (option_or (timeout opts) 1000)"
    using attempts_verify_count [OF run] by blast
  moreover have "\<forall>t j r. (t, j, Verify r) \<in> set evs \<longrightarrow>
        (\<exists>t0. (t0, j, SetTimer (t0 + timer_delay (option_or (timeout opts) 1000))) \<in> set evs \<and>
           t0 \<le> t \<and> t < t0 + timer_delay (option_or (timeout opts) 1000))"
    using attempts_deadline [OF run] by blast
  moreover have "sorted (map attempt_of evs)" by (rule attempts_sorted [OF run])
  moreover have "sorted (map time_of evs)" using attempts_clock [OF run] by blast
  ultimately show ?thesis by blast
qed

theorem reliableAction_attempts_sequential_witness:
  "(case reliableAction (\<lambda>t w. (4, if w = 0 then Inl 9 else Inr (), Suc w))
      (\<lambda>t w. (1, Inr (200 \<le> t), w))
      \<lparr>maxAttempts = Some 3, actionInterval = Some 20, verifyInterval = Some 30,
       timeout = Some 40, actionName = None\<rparr> \<lparr>clock = 0, world = 0 :: nat\<rparr>
    of (out, evs, s') \<Rightarrow>
      out = (Returned JUndefined :: nat outcome) \<and>
      evs = [(0, 0, Debug 1), (0, 0, Action (Inl 9)), (4, 0, SleepAction 20),
        (24, 1, Debug 2), (24, 1, Action (Inr ())), (28, 1, Settle),
        (78, 1, SetTimer 118), (78, 1, Verify (Inr False)),
        (79, 1, SleepVerify 30), (109, 1, Verify (Inr False)),
        (110, 1, SleepVerify 30), (140, 1, Resolve False),
        (140, 1, SleepAction 20), (160, 2, Debug 3), (160, 2, Action (Inr ())),
        (164, 2, Settle), (214, 2, SetTimer 254), (214, 2, Verify (Inr True)),
        (215, 2, Resolve True)] \<and>
      length (actions_in 0 evs) = 1 \<and> length (actions_in 1 evs) = 1 \<and>
      length (actions_in 2 evs) = 1 \<and>
      length (verifies_in 0 evs) = 0 \<and> length (verifies_in 1 evs) = 2 \<and>
      length (verifies_in 2 evs) = 1 \<and>
      sorted (map attempt_of evs) \<and> sorted (map time_of evs))"
proof -
  let ?action = "\<lambda>(t::nat) (w::nat). (4::nat, if w = 0 then Inl 9 else Inr () :: nat + unit, Suc w)"
  let ?verify = "\<lambda>(t::nat) (w::nat). (1::nat, Inr (200 \<le> t) :: nat + bool, w)"
  let ?opts = "\<lparr>maxAttempts = Some 3, actionInterval = Some 20, verifyInterval = Some 30,
    timeout = Some 40, actionName = None\<rparr>"
  let ?evs = "[(0, 0, Debug 1), (0, 0, Action (Inl 9)), (4, 0, SleepAction 20),
        (24, 1, Debug 2), (24, 1, Action (Inr ())), (28, 1, Settle),
        (78, 1, SetTimer 118), (78, 1, Verify (Inr False)),
        (79, 1, SleepVerify 30), (109, 1, Verify (Inr False)),
        (110, 1, SleepVerify 30), (140, 1, Resolve False),
        (140, 1, SleepAction 20), (160, 2, Debug 3), (160, 2, Action (Inr ())),
        (164, 2, Settle), (214, 2, SetTimer 254), (214, 2, Verify (Inr True)),
        (215, 2, Resolve True) :: (unit, nat) entry]"
  have run: "reliableAction ?action ?verify ?opts \<lparr>clock = 0, world = 0\<rparr> =
      (Returned JUndefined, ?evs, \<lparr>clock = 215, world = 3\<rparr>)"
    by (simp add: reliableAction_def option_or_def attempts.simps verify_loop.simps sleep_def
        setTimeout_await_def timer_delay_def)
  from reliableAction_attempts_sequential [OF run]
  have "sorted (map attempt_of ?evs) \<and> sorted (map time_of ?evs)" by blast
  then show ?thesis unfolding run
    by (simp add: actions_in_def verifies_in_def attempt_of_def time_of_def)
qed

text \<open>
  C5, as amended: a call of \<open>verify\<close> that returns true settles its attempt as
  confirmed, whenever it returns. The call started before the deadline of the timer of
  its iteration, as every call does; the \<open>resolve(true)\<close> that follows it is the last
  effect of the run, also when the deadline passed while the call was pending or at the
  tick of its return; the promise is never resolved with false in that iteration, and
  \<open>reliableAction\<close> returns. (A verifier that would return true at the tick of the
  timeout but is not called then is not consulted: see the counterexample below.)
\<close>

theorem reliableAction_true_result_confirms:
  assumes "reliableAction action verify opts s = (out, evs, s')"
    and "(t, j, Verify (Inr True)) \<in> set evs"
  shows "out = Returned JUndefined \<and>
     (\<exists>t'. last evs = (t', j, Resolve True)) \<and>
     (\<forall>t'. (t', j, Resolve False) \<notin> set evs) \<and>
     (\<exists>t0. (t0, j, SetTimer (t0 + timer_delay (option_or (timeout opts) 1000))) \<in> set evs \<and>
        t0 \<le> t \<and> t < t0 + timer_delay (option_or (timeout opts) 1000))"
proof -
  note run = assms(1) [unfolded reliableAction_def]
  from attempts_confirmed [OF run assms(2)] obtain pre t' where
    out: "out = Returned JUndefined"
    and evs: "evs = pre @ [(t, j, Verify (Inr True)), (t', j, Resolve True)]"
    and nf: "\<forall>t'. (t', j, Resolve False) \<notin> set evs"
    by blast
  from evs have "last evs = (t', j, Resolve True)" by simp
  then have "\<exists>t'. last evs = (t', j, Resolve True)" ..
  with out nf attempts_deadline [OF run assms(2)] show ?thesis by blast
qed

theorem reliableAction_true_result_confirms_witness:
  "(case reliableAction (\<lambda>t w. (0, Inr (), w)) (\<lambda>t w. (500, Inr True, w))
      \<lparr>maxAttempts = Some 1, actionInterval = None, verifyInterval = None,
       timeout = Some 20, actionName = None\<rparr> \<lparr>clock = 0, world = 0 :: nat\<rparr>
    of (out, evs, s') \<Rightarrow>
      out = (Returned JUndefined :: nat outcome) \<and>
      evs = [(0, 0, Debug 1), (0, 0, Action (Inr ())), (0, 0, Settle),
        (50, 0, SetTimer 70), (50, 0, Verify (Inr True)), (550, 0, Resolve True)] \<and>
      last evs = (550, 0, Resolve True)) \<and>
   (case reliableAction (\<lambda>t w. (0, Inr (), w)) (\<lambda>t w. (20, Inr True, w))
      \<lparr>maxAttempts = Some 1, actionInterval = None, verifyInterval = None,
       timeout = Some 20, actionName = None\<rparr> \<lparr>clock = 0, world = 0 :: nat\<rparr>
    of (out, evs, s') \<Rightarrow>
      out = (Returned JUndefined :: nat outcome) \<and>
      evs = [(0, 0, Debug 1), (0, 0, Action (Inr ())), (0, 0, Settle),
        (50, 0, SetTimer 70), (50, 0, Verify (Inr True)), (70, 0, Resolve True)] \<and>
      last evs = (70, 0, Resolve True))"
proof -
  let ?action = "\<lambda>(t::nat) (w::nat). (0::nat, Inr () :: nat + unit, w)"
  let ?late = "\<lambda>(t::nat) (w::nat). (500::nat, Inr True :: nat + bool, w)"
  let ?tick = "\<lambda>(t::nat) (w::nat). (20::nat, Inr True :: nat + bool, w)"
  let ?opts = "\<lparr>maxAttempts = Some 1, actionInterval = None, verifyInterval = None,
    timeout = Some 20, actionName = None\<rparr>"
  let ?evs1 = "[(0, 0, Debug 1), (0, 0, Action (Inr ())), (0, 0, Settle),
        (50, 0, SetTimer 70), (50, 0, Verify (Inr True)), (550, 0, Resolve True)
        :: (unit, nat) entry]"
  let ?evs2 = "[(0, 0, Debug 1), (0, 0, Action (Inr ())), (0, 0, Settle),
        (50, 0, SetTimer 70), (50, 0, Verify (Inr True)), (70, 0, Resolve True)
        :: (unit, nat) entry]"
  have run1: "reliableAction ?action ?late ?opts \<lparr>clock = 0, world = 0\<rparr> =
      (Returned JUndefined, ?evs1, \<lparr>clock = 550, world = 0\<rparr>)"
    by (simp add: reliableAction_def option_or_def attempts.simps verify_loop.simps sleep_def
        setTimeout_await_def timer_delay_def)
  have run2: "reliableAction ?action ?tick ?opts \<lparr>clock = 0, world = 0\<rparr> =
      (Returned JUndefined, ?evs2, \<lparr>clock = 70, world = 0\<rparr>)"
    by (simp add: reliableAction_def option_or_def attempts.simps verify_loop.simps sleep_def
        setTimeout_await_def timer_delay_def)
  have v1: "(50, 0, Verify (Inr True)) \<in> set ?evs1" by simp
  have v2: "(50, 0, Verify (Inr True)) \<in> set ?evs2" by simp
  from reliableAction_true_result_confirms [OF run1 v1]
  have "\<exists>t'. last ?evs1 = (t', 0, Resolve True)" by blast
  moreover from reliableAction_true_result_confirms [OF run2 v2]
  have "\<exists>t'. last ?evs2 = (t', 0, Resolve True)" by blast
  ultimately show ?thesis unfolding run1 run2 by simp
qed

text \<open>
  The counterexample to C5 as stated: \<open>timeout\<close> is 100 and \<open>verifyInterval\<close> 80, the
  timer is set at 50 for the deadline 150, and the verifier returns true from the tick
  150 on. It is called at 50 and at 130, the loop sleeps from 130 to 210, finds the flag
  set and resolves false: the attempt is not confirmed, though the verifier would have
  returned true at the tick of the timeout.
\<close>

theorem reliableAction_unpolled_true_at_timeout_counterexample:
  "fst (snd (verify_true_from 150 150 0)) = Inr True \<and>
   reliableAction action_returns (verify_true_from 150)
      \<lparr>maxAttempts = Some 1, actionInterval = None, verifyInterval = Some 80,
       timeout = Some 100, actionName = None\<rparr> \<lparr>clock = 0, world = 0\<rparr> =
   (Threw (NewErrorTemplate [Text ''Failed to perform '', Text ''action'', Text '' after '',
      Number 1, Text '' attempts'']),
    [(0, 0, Debug 1), (0, 0, Action (Inr ())), (0, 0, Settle),
     (50, 0, SetTimer 150), (50, 0, Verify (Inr False)),
     (50, 0, SleepVerify 80), (130, 0, Verify (Inr False)),
     (130, 0, SleepVerify 80), (210, 0, Resolve False)],
    \<lparr>clock = 210, world = 0\<rparr>) \<and>
   template_text [Text ''Failed to perform '', Text ''action'', Text '' after '', Number 1,
      Text '' attempts''] = Some ''Failed to perform action after 1 attempts''"
  by (simp add: action_returns_def verify_true_from_def reliableAction_def option_or_def
      attempts.simps verify_loop.simps sleep_def setTimeout_await_def timer_delay_def
      failed_message_def number_text_def safe_integer_def decimal_of_int_def)

text \<open>
  The same when the next poll is due at the very tick of the deadline (\<open>verifyInterval\<close>
  50): the timer of the timeout was scheduled first and runs first, so the loop finds the
  flag set and does not call \<open>verify\<close> at 150.
\<close>

lemma reliableAction_timer_runs_before_poll_due_at_deadline:
  "reliableAction action_returns (verify_true_from 150)
      \<lparr>maxAttempts = Some 1, actionInterval = None, verifyInterval = Some 50,
       timeout = Some 100, actionName = None\<rparr> \<lparr>clock = 0, world = 0\<rparr> =
   (Threw (NewErrorTemplate [Text ''Failed to perform '', Text ''action'', Text '' after '',
      Number 1, Text '' attempts'']),
    [(0, 0, Debug 1), (0, 0, Action (Inr ())), (0, 0, Settle),
     (50, 0, SetTimer 150), (50, 0, Verify (Inr False)),
     (50, 0, SleepVerify 50), (100, 0, Verify (Inr False)),
     (100, 0, SleepVerify 50), (150, 0, Resolve False)],
    \<lparr>clock = 150, world = 0\<rparr>)"
  by (simp add: action_returns_def verify_true_from_def reliableAction_def option_or_def
      attempts.simps verify_loop.simps sleep_def setTimeout_await_def timer_delay_def
      failed_message_def)

section \<open>Properties of \<open>waitFor\<close>\<close>

text \<open>
  C6: when \<open>waitFor\<close> ends without any call of \<open>cb\<close> having returned a truthy value, it
  throws the value thrown by the most recent throwing call of \<open>cb\<close> if there is one,
  and otherwise \<open>new Error(errorMessage)\<close>. In particular, when every call of \<open>cb\<close>
  throws and \<open>timeout\<close> is 150, \<open>cb\<close> is called, and \<open>waitFor\<close> throws what its last call
  threw.
\<close>

theorem waitFor_throws_last_error:
  fixes cb :: "('w, 'e + js_value) callback"
  assumes "waitFor cb errorMessage tmo s = (out, rs, s')"
  shows "((\<forall>v. Inr v \<in> set rs \<longrightarrow> \<not> truthy v) \<longrightarrow>
       out = Threw (case last_thrown rs of
                      Some e \<Rightarrow> Thrown e
                    | None \<Rightarrow> NewError (case errorMessage of None \<Rightarrow> [] | Some m \<Rightarrow> m))) \<and>
     ((\<forall>t w. \<exists>d e w'. cb t w = (d, Inl e, w')) \<and> tmo = Some 150 \<longrightarrow>
       rs \<noteq> [] \<and> (\<exists>e. last rs = Inl e \<and> out = Threw (Thrown e)))"
proof -
  let ?endTime = "int (clock s) + (case tmo of None \<Rightarrow> 5000 | Some t \<Rightarrow> t)"
  let ?fallback = "NewError (case errorMessage of None \<Rightarrow> [] | Some m \<Rightarrow> m) :: 'e thrown"
  from assms have run: "waitFor_loop cb ?endTime ?fallback s = (out, rs, s')"
    by (simp add: waitFor_def Let_def)
  have general: "out = Threw (case last_thrown rs of Some e \<Rightarrow> Thrown e | None \<Rightarrow> ?fallback)"
    if "\<forall>v. Inr v \<in> set rs \<longrightarrow> \<not> truthy v"
    using waitFor_loop_gives_up [OF run] that by blast
  have particular: "rs \<noteq> [] \<and> (\<exists>e. last rs = Inl e \<and> out = Threw (Thrown e))"
    if throws: "\<forall>t w. \<exists>d e w'. cb t w = (d, Inl e, w')" and t150: "tmo = Some 150"
  proof -
    have all: "\<exists>e. r = Inl e" if "r \<in> set rs" for r
      using waitFor_loop_results [OF run that] throws by (metis Pair_inject)
    then have none: "\<forall>v. Inr v \<in> set rs \<longrightarrow> \<not> truthy v" by blast
    have ne: "rs \<noteq> []"
      using waitFor_loop_polls_once [OF run] t150 by simp
    then have "last rs \<in> set rs" by simp
    then obtain e where l: "last rs = Inl e" using all by blast
    from last_thrown_last [OF ne l] general [OF none] have "out = Threw (Thrown e)" by simp
    with ne l show ?thesis by blast
  qed
  from general particular show ?thesis by blast
qed

theorem waitFor_throws_last_error_witness:
  "waitFor (\<lambda>t w. (0, Inl t, w)) (Some ''no mail'') (Some 150) \<lparr>clock = 0, world = 0 :: nat\<rparr> =
     (Threw (Thrown 100), [Inl 0, Inl 100], \<lparr>clock = 200, world = 0\<rparr>) \<and>
   last_thrown [Inl 0, Inl 100 :: nat + js_value] = Some (100 :: nat) \<and>
   waitFor (\<lambda>t w. (3, Inr JUndefined, Suc w)) (Some ''no mail'') (Some 150)
       \<lparr>clock = 0, world = 0 :: nat\<rparr> =
     (Threw (NewError ''no mail'') :: nat outcome, [Inr JUndefined, Inr JUndefined],
      \<lparr>clock = 206, world = 2\<rparr>)"
proof -
  let ?throwing = "\<lambda>(t::nat) (w::nat). (0::nat, Inl t :: nat + js_value, w)"
  let ?empty = "\<lambda>(t::nat) (w::nat). (3::nat, Inr JUndefined :: nat + js_value, Suc w)"
  have run1: "waitFor ?throwing (Some ''no mail'') (Some 150) \<lparr>clock = 0, world = 0\<rparr> =
      (Threw (Thrown 100), [Inl 0, Inl 100], \<lparr>clock = 200, world = 0\<rparr>)"
    by (simp add: waitFor_def waitFor_loop.simps setTimeout_await_def timer_delay_def)
  have run2: "waitFor ?empty (Some ''no mail'') (Some 150) \<lparr>clock = 0, world = 0\<rparr> =
      (Threw (NewError ''no mail''), [Inr JUndefined, Inr JUndefined],
       \<lparr>clock = 206, world = 2\<rparr>)"
    by (simp add: waitFor_def waitFor_loop.simps setTimeout_await_def timer_delay_def)
  have throws: "\<forall>t w. \<exists>d e w'. ?throwing t w = (d, Inl e, w')" by simp
  from waitFor_throws_last_error [OF run1] throws
  have "\<exists>e. last [Inl 0, Inl 100 :: nat + js_value] = Inl e \<and>
      (Threw (Thrown 100) :: nat outcome) = Threw (Thrown e)"
    by blast
  moreover from waitFor_throws_last_error [OF run2]
  have "(Threw (NewError ''no mail'') :: nat outcome) =
      Threw (case last_thrown [Inr JUndefined, Inr JUndefined :: nat + js_value] of
               Some e \<Rightarrow> Thrown e
             | None \<Rightarrow> NewError (case Some ''no mail'' of None \<Rightarrow> [] | Some m \<Rightarrow> m))"
    by simp
  ultimately show ?thesis using run1 run2 by simp
qed

text \<open>
  C7, as amended: when the first two calls of \<open>cb\<close> return \<open>undefined\<close>, the third
  call returns a truthy value, and the third call starts before the deadline, that is
  the first two calls and the two pauses of 100 ms after them take less than \<open>timeout\<close>,
  then \<open>waitFor\<close> returns that value after exactly three calls.
\<close>

theorem waitFor_returns_third_result:
  fixes cb :: "('w, 'e + js_value) callback"
  assumes "cb (clock s) (world s) = (d1, Inr JUndefined, w1)"
    and "cb (clock s + d1 + 100) w1 = (d2, Inr JUndefined, w2)"
    and "cb (clock s + d1 + 100 + d2 + 100) w2 = (d3, Inr v, w3)"
    and "truthy v"
    and "int (d1 + 100 + d2 + 100) < (case tmo of None \<Rightarrow> 5000 | Some t \<Rightarrow> t)"
  shows "waitFor cb errorMessage tmo s =
     (Returned v, [Inr JUndefined, Inr JUndefined, Inr v],
      \<lparr>clock = clock s + d1 + 100 + d2 + 100 + d3, world = w3\<rparr>)"
proof -
  let ?endTime = "int (clock s) + (case tmo of None \<Rightarrow> 5000 | Some t \<Rightarrow> t)"
  let ?fallback = "NewError (case errorMessage of None \<Rightarrow> [] | Some m \<Rightarrow> m) :: 'e thrown"
  let ?s2 = "\<lparr>clock = clock s + d1 + 100, world = w1\<rparr>"
  let ?s3 = "\<lparr>clock = clock s + d1 + 100 + d2 + 100, world = w2\<rparr>"
  have t1: "int (clock s) < ?endTime" and t2: "int (clock ?s2) < ?endTime"
    and t3: "int (clock ?s3) < ?endTime"
    using assms(5) by simp_all
  have third: "waitFor_loop cb ?endTime ?fallback ?s3 =
      (Returned v, [Inr v], \<lparr>clock = clock s + d1 + 100 + d2 + 100 + d3, world = w3\<rparr>)"
    using waitFor_loop_found [OF t3, of cb d3 v w3] assms(3,4) by simp
  have second: "waitFor_loop cb ?endTime ?fallback ?s2 =
      (Returned v, [Inr JUndefined, Inr v],
       \<lparr>clock = clock s + d1 + 100 + d2 + 100 + d3, world = w3\<rparr>)"
    using waitFor_loop_falsy [OF t2, of cb d2 JUndefined w2] assms(2) third by simp
  have "waitFor_loop cb ?endTime ?fallback s =
      (Returned v, [Inr JUndefined, Inr JUndefined, Inr v],
       \<lparr>clock = clock s + d1 + 100 + d2 + 100 + d3, world = w3\<rparr>)"
    using waitFor_loop_falsy [OF t1, of cb d1 JUndefined w1] assms(1) second by simp
  then show ?thesis by (simp add: waitFor_def Let_def)
qed

theorem waitFor_returns_third_result_witness:
  "waitFor (\<lambda>t w. (7, Inr (if w < 2 then JUndefined else JStr ''mail''), Suc w)) None (Some 215)
       \<lparr>clock = 0, world = 0 :: nat\<rparr> =
     (Returned (JStr ''mail'') :: nat outcome,
      [Inr JUndefined, Inr JUndefined, Inr (JStr ''mail'')], \<lparr>clock = 221, world = 3\<rparr>)"
proof -
  let ?cb = "\<lambda>(t::nat) (w::nat).
    (7::nat, Inr (if w < 2 then JUndefined else JStr ''mail'') :: nat + js_value, Suc w)"
  let ?s = "\<lparr>clock = 0, world = 0 :: nat\<rparr>"
  have c1: "?cb (clock ?s) (world ?s) = (7, Inr JUndefined, 1)" by simp
  have c2: "?cb (clock ?s + 7 + 100) 1 = (7, Inr JUndefined, 2)" by simp
  have c3: "?cb (clock ?s + 7 + 100 + 7 + 100) 2 = (7, Inr (JStr ''mail''), 3)" by simp
  have tr: "truthy (JStr ''mail'')" by simp
  have tm: "int (7 + 100 + 7 + 100) < (case Some 215 of None \<Rightarrow> 5000 | Some t \<Rightarrow> t)" by simp
  from waitFor_returns_third_result [OF c1 c2 c3 tr tm, of None]
  show ?thesis by simp
qed

text \<open>
  The counterexamples to C7 as stated. With \<open>timeout\<close> 150 the polling interval of 100
  is smaller than the timeout, but the third call would start at 200, after the
  deadline: \<open>cb\<close> is called twice and \<open>waitFor\<close> throws the fallback error. With
  \<open>timeout\<close> 450 five calls are made, but the value defined from the third call on is
  the number 0, which the test \<open>if (response)\<close> does not take for a result.
\<close>

theorem waitFor_third_result_counterexample:
  "waitFor (probe_from_third_call (JStr ''mail'')) (Some ''no mail'') (Some 150)
       \<lparr>clock = 0, world = 0\<rparr> =
     (Threw (NewError ''no mail''), [Inr JUndefined, Inr JUndefined],
      \<lparr>clock = 200, world = 2\<rparr>) \<and>
   waitFor (probe_from_third_call (JNum 0)) (Some ''no mail'') (Some 450)
       \<lparr>clock = 0, world = 0\<rparr> =
     (Threw (NewError ''no mail''),
      [Inr JUndefined, Inr JUndefined, Inr (JNum 0), Inr (JNum 0), Inr (JNum 0)],
      \<lparr>clock = 500, world = 5\<rparr>)"
  by (simp add: probe_from_third_call_def waitFor_def waitFor_loop.simps setTimeout_await_def
      timer_delay_def)

end
